theory Spec2Isabelle
  imports Main "HOL-Library.Word" "HOL-Library.AList"
begin

section \<open>kalpak: a bulk URL fetcher with retry and redirect following\<close>

text \<open>
  The development embeds \<^verbatim>\<open>src/kalpak.py\<close>. The program talks to four things it does not
  define: the HTTP client (aiohttp), the URL parser (urllib), the random number generator
  and the file system. Each of them is a field of an environment record: a function that
  answers a call given everything the program has done to that collaborator so far. The
  mutable part of the run (the requests issued, the logging calls, the files written) is a
  record that every function takes and returns.
\<close>

subsection \<open>Data\<close>

type_synonym bytes = "8 word list"

text \<open>
  Exceptions, by the most specific class that the handlers of \<^verbatim>\<open>fetch\<close> name. Everything
  else that derives from \<^verbatim>\<open>Exception\<close> is \<open>OtherException\<close> with its class name.
\<close>

datatype exn =
    ClientConnectorError
  | ServerTimeoutError
  | ClientResponseError
  | ClientError
  | AsyncioTimeoutError
  | OtherException string

text \<open>The classes of the first \<^verbatim>\<open>except\<close> clause of \<^verbatim>\<open>fetch\<close>.\<close>

fun is_network_error :: "exn \<Rightarrow> bool" where
  "is_network_error (OtherException c) = False"
| "is_network_error e = True"

record request =
  url :: "string option"
  headers :: "(string \<times> string) list"
  timeout :: nat

text \<open>
  A response: \<open>location\<close> is the value of \<^verbatim>\<open>response.headers.get("Location")\<close> and
  \<open>content\<close> is what \<^verbatim>\<open>await response.read()\<close> does, a raised exception or the body.
\<close>

record response =
  status :: int
  reason :: string
  location :: "string option"
  content :: "exn + bytes"

datatype outcome = Raise exn | Resp response

record parsed =
  scheme :: string
  netloc :: string
  path :: string

datatype level = DEBUG | INFO | WARNING | ERROR

text \<open>The messages of the program, one constructor per format string.\<close>

datatype msg =
    Attempting "string option" int
  | Fetched "string option"
  | RedirectedTo "string option"
  | FailedStatus "string option" int string
  | NetworkError "string option" int exn
  | UnexpectedError "string option" int exn
  | CreatedDirectory string
  | FailedCreateDirectory string exn
  | SavedContent string
  | FailedSaveContent string exn
  | InvalidSkipped string
  | FailedFetchContent string
  | RetriesAtLeast1
  | MaxConnectionsAtLeast1
  | ConfigNotFound string
  | ConfigParseError exn
  | ErrorReadingUrls exn
  | NoUrlsProvided

text \<open>What the program prints on standard output, one constructor per format string.\<close>

datatype console =
    PrintCreatedDirectory string
  | PrintFailedCreateDirectory string
  | PrintSaved string
  | PrintFailedSave string
  | PrintInvalidSkipped string
  | PrintFailedFetch string

text \<open>
  What the run does, in order: \<open>FetchInvoked u\<close> when the body of \<^verbatim>\<open>fetch\<close> starts on
  \<open>u\<close>, \<open>RequestBegin\<close> when \<^verbatim>\<open>session.get\<close> is entered and \<open>RequestEnd\<close> when its
  \<^verbatim>\<open>async with\<close> block is left, by any way.
\<close>

datatype event = FetchInvoked string | RequestBegin request | RequestEnd

datatype fs_op = Makedirs string "exn option" | WriteFile string bytes "exn option"

text \<open>
  The collaborators. \<open>session_get\<close> answers a request given the exchanges that came
  before it; \<open>urlparse\<close> returns \<open>None\<close> where urllib raises \<^verbatim>\<open>ValueError\<close>;
  \<open>draws\<close> is the stream of numbers the random generator will produce; the file system
  functions answer given the operations performed so far (\<open>None\<close> is success). The last
  three are what opening the log file, reading the JSON list of URLs and reading the YAML
  configuration do.
\<close>

record env =
  session_get :: "(request \<times> outcome) list \<Rightarrow> request \<Rightarrow> outcome"
  urlparse :: "string \<Rightarrow> parsed option"
  draws :: "nat \<Rightarrow> nat"
  path_exists :: "fs_op list \<Rightarrow> string \<Rightarrow> bool"
  makedirs :: "fs_op list \<Rightarrow> string \<Rightarrow> exn option"
  write_file :: "fs_op list \<Rightarrow> string \<Rightarrow> bytes \<Rightarrow> exn option"
  basename :: "string \<Rightarrow> string"
  dirname :: "string \<Rightarrow> string"
  path_join :: "string \<Rightarrow> string \<Rightarrow> string"
  expanduser :: "string \<Rightarrow> string"
  os_name :: string
  open_log_file :: "string \<Rightarrow> exn option"
  read_urls_file :: "string \<Rightarrow> exn + string list"
  read_config_file :: "string \<Rightarrow> exn option"

record world =
  exchanges :: "(request \<times> outcome) list"
  events :: "event list"
  logs :: "(level \<times> msg) list"
  printed :: "console list"
  rng_pos :: nat
  fs_ops :: "fs_op list"
  progress :: nat

definition logging :: "level \<Rightarrow> msg \<Rightarrow> world \<Rightarrow> world" where
  "logging lvl m w = w\<lparr>logs := logs w @ [(lvl, m)]\<rparr>"

definition print :: "console \<Rightarrow> world \<Rightarrow> world" where
  "print m w = w\<lparr>printed := printed w @ [m]\<rparr>"

definition emit :: "event \<Rightarrow> world \<Rightarrow> world" where
  "emit e w = w\<lparr>events := events w @ [e]\<rparr>"

subsection \<open>Constants and URL validity\<close>

definition USER_AGENTS :: "string list" where
  "USER_AGENTS =
    [''Mozilla/5.0 (Windows NT 10.0; Win64; x64) AppleWebKit/537.36 (KHTML, like Gecko) Chrome/91.0.4472.124 Safari/537.36'',
     ''Mozilla/5.0 (Macintosh; Intel Mac OS X 10_15_7) AppleWebKit/537.36 (KHTML, like Gecko) Chrome/91.0.4472.124 Safari/537.36'',
     ''Mozilla/5.0 (Windows NT 10.0; Win64; x64; rv:89.0) Gecko/20100101 Firefox/89.0'',
     ''Mozilla/5.0 (Macintosh; Intel Mac OS X 10.15; rv:89.0) Gecko/20100101 Firefox/89.0'']"

text \<open>\<^verbatim>\<open>random.choice\<close> on a non-empty sequence: one draw is consumed.\<close>

definition random_choice :: "env \<Rightarrow> 'a list \<Rightarrow> world \<Rightarrow> 'a \<times> world" where
  "random_choice e xs w =
     (xs ! (draws e (rng_pos w) mod length xs), w\<lparr>rng_pos := Suc (rng_pos w)\<rparr>)"

definition is_valid_url :: "env \<Rightarrow> string \<Rightarrow> bool" where
  "is_valid_url e u =
     (case urlparse e u of
        None \<Rightarrow> False
      | Some result \<Rightarrow> scheme result \<noteq> [] \<and> netloc result \<noteq> [])"

subsection \<open>fetch\<close>

text \<open>Python's truth value of an optional string: \<^verbatim>\<open>None\<close> and the empty string are false.\<close>

fun truthy :: "string option \<Rightarrow> bool" where
  "truthy None = False"
| "truthy (Some s) = (s \<noteq> [])"

text \<open>The two \<^verbatim>\<open>except\<close> clauses: both log and let the loop go on with the same URL.\<close>

definition handle_exception :: "string option \<Rightarrow> int \<Rightarrow> exn \<Rightarrow> world \<Rightarrow> world" where
  "handle_exception u attempt x w =
     (if is_network_error x then logging WARNING (NetworkError u (attempt + 1) x) w
      else logging ERROR (UnexpectedError u (attempt + 1) x) w)"

text \<open>
  How one iteration of the loop ends: \<^verbatim>\<open>return content\<close>, \<^verbatim>\<open>break\<close>, or going on to the
  next iteration with a working URL (by \<^verbatim>\<open>continue\<close>, by falling through, or from a handler).
\<close>

datatype step = Return bytes | Break | Next "string option"

definition attempt_step ::
  "env \<Rightarrow> (string \<times> string) list \<Rightarrow> string option \<Rightarrow> int \<Rightarrow> world \<Rightarrow> step \<times> world" where
  "attempt_step e hs u attempt w =
     (let w1 = logging DEBUG (Attempting u (attempt + 1)) w;
          rq = \<lparr>url = u, headers = hs, timeout = 10\<rparr>;
          out = session_get e (exchanges w1) rq;
          w2 = emit (RequestBegin rq) (w1\<lparr>exchanges := exchanges w1 @ [(rq, out)]\<rparr>)
      in case out of
           Raise x \<Rightarrow> (Next u, handle_exception u attempt x (emit RequestEnd w2))
         | Resp r \<Rightarrow>
             if status r = 200 then
               (case content r of
                  Inr body \<Rightarrow> (Return body, emit RequestEnd (logging INFO (Fetched u) w2))
                | Inl x \<Rightarrow> (Next u, handle_exception u attempt x (emit RequestEnd w2)))
             else if status r = 301 \<or> status r = 302 \<or> status r = 303 then
               (let u' = location r in
                if truthy u' then
                  (Next u', emit RequestEnd (logging INFO (RedirectedTo u') w2))
                else (Next u', emit RequestEnd w2))
             else
               (Break, emit RequestEnd (logging ERROR (FailedStatus u (status r) (reason r)) w2)))"

text \<open>The \<^verbatim>\<open>for attempt in range(retries)\<close> loop, over the list of attempt indices.\<close>

fun fetch_loop ::
  "env \<Rightarrow> (string \<times> string) list \<Rightarrow> string option \<Rightarrow> int list \<Rightarrow> world \<Rightarrow> bytes option \<times> world" where
  "fetch_loop e hs u [] w = (None, w)"
| "fetch_loop e hs u (attempt # rest) w =
     (case attempt_step e hs u attempt w of
        (Return body, w') \<Rightarrow> (Some body, w')
      | (Break, w') \<Rightarrow> (None, w')
      | (Next u', w') \<Rightarrow> fetch_loop e hs u' rest w')"

text \<open>\<^verbatim>\<open>range(retries)\<close>: empty when \<open>retries\<close> is zero or negative.\<close>

definition py_range :: "int \<Rightarrow> int list" where
  "py_range n = [0..n - 1]"

definition build_headers :: "env \<Rightarrow> bool \<Rightarrow> world \<Rightarrow> (string \<times> string) list \<times> world" where
  "build_headers e resume w =
     (let (ua, w1) = random_choice e USER_AGENTS w;
          hs = [(''User-Agent'', ua)]
      in (if resume then hs @ [(''Range'', ''bytes=0-'')] else hs, w1))"

definition fetch :: "env \<Rightarrow> string \<Rightarrow> int \<Rightarrow> bool \<Rightarrow> world \<Rightarrow> bytes option \<times> world" where
  "fetch e u retries resume w =
     (let (hs, w1) = build_headers e resume (emit (FetchInvoked u) w)
      in fetch_loop e hs (Some u) (py_range retries) w1)"

text \<open>The exchanges of one invocation: what it appended to the record of the run.\<close>

definition attempts :: "env \<Rightarrow> string \<Rightarrow> int \<Rightarrow> bool \<Rightarrow> world \<Rightarrow> (request \<times> outcome) list" where
  "attempts e u retries resume w =
     drop (length (exchanges w)) (exchanges (snd (fetch e u retries resume w)))"

text \<open>The same for the loop alone.\<close>

definition loop_attempts ::
  "env \<Rightarrow> (string \<times> string) list \<Rightarrow> string option \<Rightarrow> int list \<Rightarrow> world \<Rightarrow> (request \<times> outcome) list" where
  "loop_attempts e hs u as w =
     drop (length (exchanges w)) (exchanges (snd (fetch_loop e hs u as w)))"

subsection \<open>Persistence\<close>

definition get_filename_from_url :: "env \<Rightarrow> string \<Rightarrow> exn + string" where
  "get_filename_from_url e u =
     (case urlparse e u of
        None \<Rightarrow> Inl (OtherException ''ValueError'')
      | Some p \<Rightarrow>
          (let b = basename e (path p) in Inr (if b \<noteq> [] then b else ''downloaded_file'')))"

text \<open>
  The loop over \<^verbatim>\<open>data.items()\<close>. The file name is computed outside the \<^verbatim>\<open>try\<close>, so an
  exception there leaves the function; opening and writing are inside it.
\<close>

fun save_items :: "env \<Rightarrow> (string \<times> bytes) list \<Rightarrow> string \<Rightarrow> world \<Rightarrow> exn + world" where
  "save_items e [] output_dir w = Inr w"
| "save_items e ((u, body) # rest) output_dir w =
     (case get_filename_from_url e u of
        Inl x \<Rightarrow> Inl x
      | Inr filename \<Rightarrow>
          (let file_path = path_join e output_dir filename;
               r = write_file e (fs_ops w) file_path body;
               w1 = w\<lparr>fs_ops := fs_ops w @ [WriteFile file_path body r]\<rparr>
           in case r of
                None \<Rightarrow>
                  save_items e rest output_dir
                    (print (PrintSaved file_path) (logging INFO (SavedContent file_path) w1))
              | Some x \<Rightarrow>
                  save_items e rest output_dir
                    (print (PrintFailedSave file_path)
                       (logging ERROR (FailedSaveContent file_path x) w1))))"

definition save_to_directory ::
  "env \<Rightarrow> (string \<times> bytes) list \<Rightarrow> string \<Rightarrow> world \<Rightarrow> exn + world" where
  "save_to_directory e data output_dir w =
     (if \<not> path_exists e (fs_ops w) output_dir then
        (let r = makedirs e (fs_ops w) output_dir;
             w1 = w\<lparr>fs_ops := fs_ops w @ [Makedirs output_dir r]\<rparr>
         in case r of
              None \<Rightarrow>
                save_items e data output_dir
                  (print (PrintCreatedDirectory output_dir)
                     (logging INFO (CreatedDirectory output_dir) w1))
            | Some x \<Rightarrow>
                Inr (print (PrintFailedCreateDirectory output_dir)
                       (logging ERROR (FailedCreateDirectory output_dir x) w1)))
      else save_items e data output_dir w)"

subsection \<open>The dispatcher\<close>

text \<open>
  \<^verbatim>\<open>dict(results)\<close>: a later pair with a key already present replaces the value and keeps
  the key's place.
\<close>

definition dict :: "('k \<times> 'v) list \<Rightarrow> ('k \<times> 'v) list" where
  "dict results = fold (\<lambda>(k, v) d. AList.update k v d) results []"

fun skip_invalid :: "string list \<Rightarrow> world \<Rightarrow> world" where
  "skip_invalid [] w = w"
| "skip_invalid (u # us) w =
     skip_invalid us (print (PrintInvalidSkipped u) (logging WARNING (InvalidSkipped u) w))"

text \<open>
  A coroutine object is a computation that has not started: a function from the state of
  the run to a result and a new state. \<^verbatim>\<open>await task\<close> runs it to its end, and the loop
  awaits the coroutines one after the other.
\<close>

type_synonym task = "world \<Rightarrow> bytes option \<times> world"

fun await_tasks ::
  "(string \<times> task) list \<Rightarrow> (string \<times> bytes) list \<Rightarrow> world \<Rightarrow> (string \<times> bytes) list \<times> world" where
  "await_tasks [] results w = (results, w)"
| "await_tasks ((u, t) # rest) results w =
     (case t w of
        (Some body, w') \<Rightarrow>
          await_tasks rest (results @ [(u, body)]) (w'\<lparr>progress := progress w' + 1\<rparr>)
      | (None, w') \<Rightarrow>
          await_tasks rest results
            (print (PrintFailedFetch u) (logging ERROR (FailedFetchContent u) w')))"

text \<open>The body of \<^verbatim>\<open>download_urls\<close> up to \<^verbatim>\<open>downloaded_content\<close>.\<close>

definition download_results ::
  "env \<Rightarrow> string list \<Rightarrow> int \<Rightarrow> bool \<Rightarrow> world \<Rightarrow> (string \<times> bytes) list \<times> world" where
  "download_results e urls retries resume w =
     (let valid_urls = filter (is_valid_url e) urls;
          invalid_urls = filter (\<lambda>u. \<not> is_valid_url e u) urls;
          w1 = skip_invalid invalid_urls w;
          tasks = map (\<lambda>u. fetch e u retries resume) valid_urls;
          (results, w2) = await_tasks (zip valid_urls tasks) [] w1
      in (dict results, w2))"

text \<open>
  \<open>max_connections\<close> only sizes the connector of the session; no statement of the function
  reads it again.
\<close>

definition download_urls ::
  "env \<Rightarrow> string list \<Rightarrow> string \<Rightarrow> int \<Rightarrow> int \<Rightarrow> bool \<Rightarrow> world \<Rightarrow> exn + world" where
  "download_urls e urls output_dir retries max_connections resume w =
     (let (downloaded_content, w2) = download_results e urls retries resume w
      in save_to_directory e downloaded_content output_dir w2)"

subsection \<open>Command line and main\<close>

text \<open>The namespace that argparse returns.\<close>

record args =
  arg_file :: "string option"
  arg_dest :: string
  arg_log :: "string option"
  arg_retries :: int
  arg_max_connections :: int
  arg_config :: "string option"
  arg_url :: "string list option"
  arg_resume :: bool

text \<open>
  How a call ends: it returns, it leaves the process by \<^verbatim>\<open>sys.exit\<close> with a code, or it
  raises an exception that nothing catches.
\<close>

datatype 'a proc = Returns 'a | Exits int | Raises exn

fun and_then :: "'a proc \<times> world \<Rightarrow> ('a \<Rightarrow> world \<Rightarrow> 'b proc \<times> world) \<Rightarrow> 'b proc \<times> world" where
  "and_then (Returns v, w) f = f v w"
| "and_then (Exits c, w) f = (Exits c, w)"
| "and_then (Raises x, w) f = (Raises x, w)"

definition validate_args :: "args \<Rightarrow> world \<Rightarrow> bool \<times> world" where
  "validate_args a w =
     (if arg_retries a < 1 then (False, logging ERROR RetriesAtLeast1 w)
      else if arg_max_connections a < 1 then (False, logging ERROR MaxConnectionsAtLeast1 w)
      else (True, w))"

text \<open>\<open>a\<close> is what \<^verbatim>\<open>parser.parse_args()\<close> returned.\<close>

definition parse_args :: "args \<Rightarrow> world \<Rightarrow> args proc \<times> world" where
  "parse_args a w =
     (case validate_args a w of
        (False, w') \<Rightarrow> (Exits 1, w')
      | (True, w') \<Rightarrow> (Returns a, w'))"

definition default_log_file :: "env \<Rightarrow> string" where
  "default_log_file e =
     (if os_name e = ''nt''
      then path_join e (path_join e (expanduser e ''~'') ''.kalpak'') ''kalpak.log''
      else ''/var/log/kalpak.log'')"

definition choose_log_file :: "env \<Rightarrow> args \<Rightarrow> string" where
  "choose_log_file e a =
     (case arg_log a of
        Some l \<Rightarrow> if l \<noteq> [] then l else default_log_file e
      | None \<Rightarrow> default_log_file e)"

definition ensure_log_directory :: "env \<Rightarrow> string \<Rightarrow> world \<Rightarrow> unit proc \<times> world" where
  "ensure_log_directory e log_file w =
     (if os_name e = ''nt'' \<and> \<not> path_exists e (fs_ops w) (dirname e log_file) then
        (let r = makedirs e (fs_ops w) (dirname e log_file);
             w1 = w\<lparr>fs_ops := fs_ops w @ [Makedirs (dirname e log_file) r]\<rparr>
         in case r of
              None \<Rightarrow> (Returns (), logging INFO (CreatedDirectory (dirname e log_file)) w1)
            | Some x \<Rightarrow>
                (Exits 1, logging ERROR (FailedCreateDirectory (dirname e log_file) x) w1))
      else (Returns (), w))"

definition setup_logging :: "env \<Rightarrow> string \<Rightarrow> world \<Rightarrow> unit proc \<times> world" where
  "setup_logging e log_file w =
     (case open_log_file e log_file of None \<Rightarrow> (Returns (), w) | Some x \<Rightarrow> (Raises x, w))"

definition inline_urls :: "args \<Rightarrow> world \<Rightarrow> string list proc \<times> world" where
  "inline_urls a w =
     (case arg_url a of
        Some (u # us) \<Rightarrow> (Returns (u # us), w)
      | _ \<Rightarrow> (Exits 1, logging ERROR NoUrlsProvided w))"

definition urls_from_file :: "env \<Rightarrow> string \<Rightarrow> world \<Rightarrow> string list proc \<times> world" where
  "urls_from_file e f w =
     (case read_urls_file e f of
        Inr urls \<Rightarrow> (Returns urls, w)
      | Inl x \<Rightarrow>
          if x = OtherException ''FileNotFoundError'' \<or> x = OtherException ''JSONDecodeError''
          then (Exits 1, logging ERROR (ErrorReadingUrls x) w)
          else (Raises x, w))"

text \<open>\<^verbatim>\<open>if args.file: ... elif args.url: ... else: ...\<close> of \<^verbatim>\<open>main\<close>.\<close>

definition read_urls :: "env \<Rightarrow> args \<Rightarrow> world \<Rightarrow> string list proc \<times> world" where
  "read_urls e a w =
     (case arg_file a of
        Some f \<Rightarrow> if f \<noteq> [] then urls_from_file e f w else inline_urls a w
      | None \<Rightarrow> inline_urls a w)"

definition load_config :: "env \<Rightarrow> string \<Rightarrow> world \<Rightarrow> unit proc \<times> world" where
  "load_config e config_file w =
     (case read_config_file e config_file of
        None \<Rightarrow> (Returns (), w)
      | Some x \<Rightarrow>
          if x = OtherException ''FileNotFoundError''
          then (Returns (), logging ERROR (ConfigNotFound config_file) w)
          else if x = OtherException ''YAMLError''
          then (Returns (), logging ERROR (ConfigParseError x) w)
          else (Raises x, w))"

definition main :: "env \<Rightarrow> args \<Rightarrow> world \<Rightarrow> unit proc \<times> world" where
  "main e argv w =
     and_then (parse_args argv w) (\<lambda>a w1.
     and_then (ensure_log_directory e (choose_log_file e a) w1) (\<lambda>_ w2.
     and_then (setup_logging e (choose_log_file e a) w2) (\<lambda>_ w3.
     and_then (read_urls e a w3) (\<lambda>urls w4.
     and_then (case arg_config a of
                 Some c \<Rightarrow> if c \<noteq> [] then load_config e c w4 else (Returns (), w4)
               | None \<Rightarrow> (Returns (), w4)) (\<lambda>_ w5.
       case download_urls e urls (arg_dest a) (arg_retries a) (arg_max_connections a)
              (arg_resume a) w5 of
         Inr w6 \<Rightarrow> (Returns (), w6)
       | Inl x \<Rightarrow> (Raises x, w5))))))"

subsection \<open>Notions used to state the properties\<close>

text \<open>The request that an iteration with headers \<open>hs\<close> and working URL \<open>u\<close> sends.\<close>

definition request_for :: "(string \<times> string) list \<Rightarrow> string option \<Rightarrow> request" where
  "request_for hs u = \<lparr>url = u, headers = hs, timeout = 10\<rparr>"

text \<open>
  The exception that an attempt raises inside the \<^verbatim>\<open>try\<close> block, if any: from
  \<^verbatim>\<open>session.get\<close>, or from reading the body of a 200 response.
\<close>

fun raised :: "outcome \<Rightarrow> exn option" where
  "raised (Raise x) = Some x"
| "raised (Resp r) =
     (if status r = 200 then (case content r of Inl x \<Rightarrow> Some x | Inr body \<Rightarrow> None) else None)"

definition is_redirect :: "response \<Rightarrow> bool" where
  "is_redirect r = (status r = 301 \<or> status r = 302 \<or> status r = 303)"

text \<open>How an iteration ends, as a function of the working URL and of what the request got.\<close>

fun next_of :: "string option \<Rightarrow> outcome \<Rightarrow> step" where
  "next_of u (Raise x) = Next u"
| "next_of u (Resp r) =
     (if status r = 200 then (case content r of Inr body \<Rightarrow> Return body | Inl x \<Rightarrow> Next u)
      else if is_redirect r then Next (location r)
      else Break)"

text \<open>The outcomes after which the loop goes on to the next attempt.\<close>

definition goes_on :: "outcome \<Rightarrow> bool" where
  "goes_on out =
     (case out of
        Raise x \<Rightarrow> True
      | Resp r \<Rightarrow> if status r = 200 then isl (content r) else is_redirect r)"

text \<open>The requests that are open at the end of a sequence of events.\<close>

fun in_flight :: "event list \<Rightarrow> int" where
  "in_flight [] = 0"
| "in_flight (RequestBegin rq # es) = 1 + in_flight es"
| "in_flight (RequestEnd # es) = in_flight es - 1"
| "in_flight (FetchInvoked u # es) = in_flight es"

text \<open>A sequence of events that never has more than one request open and ends with none.\<close>

definition one_at_a_time :: "event list \<Rightarrow> bool" where
  "one_at_a_time es =
     (in_flight es = 0 \<and> (\<forall>n. 0 \<le> in_flight (take n es) \<and> in_flight (take n es) \<le> 1))"

text \<open>The events, the URLs given to \<^verbatim>\<open>fetch\<close> and the file operations of a whole run.\<close>

definition run_events :: "event list \<Rightarrow> event list \<Rightarrow> event list" where
  "run_events before after = drop (length before) after"

fun fetch_calls :: "event list \<Rightarrow> string list" where
  "fetch_calls [] = []"
| "fetch_calls (FetchInvoked u # es) = u # fetch_calls es"
| "fetch_calls (ev # es) = fetch_calls es"

text \<open>The files that a sequence of file operations tried to write, and where an entry goes.\<close>

fun write_attempts :: "fs_op list \<Rightarrow> (string \<times> bytes) list" where
  "write_attempts [] = []"
| "write_attempts (WriteFile p body r # ops) = (p, body) # write_attempts ops"
| "write_attempts (Makedirs p r # ops) = write_attempts ops"

definition file_path_for :: "env \<Rightarrow> string \<Rightarrow> string \<Rightarrow> string" where
  "file_path_for e output_dir u =
     (case get_filename_from_url e u of
        Inr filename \<Rightarrow> path_join e output_dir filename
      | Inl x \<Rightarrow> [])"

subsection \<open>A concrete environment\<close>

text \<open>
  A small world to run the program in: a parser that splits a URL the way urllib does in
  the simple cases, POSIX path functions, a server with a handful of URLs, a file system
  in which one directory cannot be created and one file cannot be written.
\<close>

definition world0 :: world where
  "world0 = \<lparr>exchanges = [], events = [], logs = [], printed = [], rng_pos = 0, fs_ops = [],
             progress = 0\<rparr>"

definition demo_urlparse :: "string \<Rightarrow> parsed option" where
  "demo_urlparse s =
     (let pre = takeWhile (\<lambda>c. c \<noteq> CHR '':'') s;
          has_scheme = (length pre < length s \<and> pre \<noteq> [] \<and> list_all (\<lambda>c. c \<notin> set ''/?#'') pre);
          rest = (if has_scheme then drop (length pre + 1) s else s);
          has_netloc = (take 2 rest = ''//'');
          net = (if has_netloc then takeWhile (\<lambda>c. c \<notin> set ''/?#'') (drop 2 rest) else []);
          rest2 = (if has_netloc then dropWhile (\<lambda>c. c \<notin> set ''/?#'') (drop 2 rest) else rest)
      in if (CHR ''['' \<in> set net) \<noteq> (CHR '']'' \<in> set net) then None
         else Some \<lparr>scheme = (if has_scheme then pre else []), netloc = net,
                    path = takeWhile (\<lambda>c. c \<notin> set ''?#'') rest2\<rparr>)"

definition demo_basename :: "string \<Rightarrow> string" where
  "demo_basename p = rev (takeWhile (\<lambda>c. c \<noteq> CHR ''/'') (rev p))"

definition demo_dirname :: "string \<Rightarrow> string" where
  "demo_dirname p = rev (drop 1 (dropWhile (\<lambda>c. c \<noteq> CHR ''/'') (rev p)))"

definition demo_join :: "string \<Rightarrow> string \<Rightarrow> string" where
  "demo_join a b =
     (if take 1 b = ''/'' then b
      else if a = [] \<or> last a = CHR ''/'' then a @ b
      else a @ ''/'' @ b)"

text \<open>
  The server: \<^verbatim>\<open>a.test/x.bin\<close> has moved to \<^verbatim>\<open>b.test\<close>, \<^verbatim>\<open>loop.test\<close> redirects to itself,
  \<^verbatim>\<open>noloc.test\<close> redirects without saying where, \<^verbatim>\<open>flaky.test\<close> times out the first time
  it is asked, and every other host is unreachable. A request without a URL raises
  \<^verbatim>\<open>TypeError\<close>, as the HTTP client does.
\<close>

definition demo_get :: "(request \<times> outcome) list \<Rightarrow> request \<Rightarrow> outcome" where
  "demo_get history rq =
     (case url rq of
        None \<Rightarrow> Raise (OtherException ''TypeError'')
      | Some u \<Rightarrow>
          if u = ''http://a.test/x.bin'' then
            Resp \<lparr>status = 301, reason = ''Moved Permanently'',
                  location = Some ''http://b.test/x.bin'', content = Inr []\<rparr>
          else if u = ''http://b.test/x.bin'' then
            Resp \<lparr>status = 200, reason = ''OK'', location = None, content = Inr [1, 2, 3]\<rparr>
          else if u = ''http://a.test/missing'' then
            Resp \<lparr>status = 404, reason = ''Not Found'', location = None, content = Inr []\<rparr>
          else if u = ''http://loop.test/f'' then
            Resp \<lparr>status = 302, reason = ''Found'', location = Some ''http://loop.test/f'',
                  content = Inr []\<rparr>
          else if u = ''http://noloc.test/f'' then
            Resp \<lparr>status = 302, reason = ''Found'', location = None, content = Inr []\<rparr>
          else if u = ''http://flaky.test/y.bin'' then
            (if list_ex (\<lambda>x. url (fst x) = Some u) history
             then Resp \<lparr>status = 200, reason = ''OK'', location = None, content = Inr [7]\<rparr>
             else Raise ServerTimeoutError)
          else Raise ClientConnectorError)"

definition demo_env :: env where
  "demo_env =
     \<lparr>session_get = demo_get,
      urlparse = demo_urlparse,
      draws = (\<lambda>i. i),
      path_exists = (\<lambda>ops p. p = ''out'' \<or> list_ex (\<lambda>x. x = Makedirs p None) ops),
      makedirs =
        (\<lambda>ops p. if p = ''taken'' then Some (OtherException ''FileExistsError'') else None),
      write_file =
        (\<lambda>ops p body.
           if p = ''out/x.bin'' then Some (OtherException ''PermissionError'') else None),
      basename = demo_basename,
      dirname = demo_dirname,
      path_join = demo_join,
      expanduser = (\<lambda>p. p),
      os_name = ''posix'',
      open_log_file = (\<lambda>p. None),
      read_urls_file = (\<lambda>p. Inl (OtherException ''FileNotFoundError'')),
      read_config_file = (\<lambda>p. None)\<rparr>"

section \<open>Properties\<close>

subsection \<open>The exchanges of the retry loop\<close>

lemma exchanges_logging [simp]: "exchanges (logging l m w) = exchanges w"
  by (simp add: logging_def)
lemma exchanges_emit [simp]: "exchanges (emit ev w) = exchanges w"
  by (simp add: emit_def)
lemma exchanges_handle_exception [simp]: "exchanges (handle_exception u a x w) = exchanges w"
  by (simp add: handle_exception_def)

lemma attempt_step_exchanges:
  "exchanges (snd (attempt_step e hs u a w)) =
     exchanges w @ [(request_for hs u, session_get e (exchanges w) (request_for hs u))]"
  by (simp add: attempt_step_def request_for_def Let_def split: outcome.split sum.split)

lemma attempt_step_fst:
  "fst (attempt_step e hs u a w) = next_of u (session_get e (exchanges w) (request_for hs u))"
  by (simp add: attempt_step_def request_for_def is_redirect_def Let_def split: outcome.split sum.split)

lemma fetch_loop_exchanges:
  "\<exists>tr. exchanges (snd (fetch_loop e hs u as w)) = exchanges w @ tr"
proof (induction as arbitrary: u w)
  case Nil
  then show ?case by simp
next
  case (Cons a as)
  obtain s w' where st: "attempt_step e hs u a w = (s, w')" by (cases "attempt_step e hs u a w")
  have ex: "exchanges w' = exchanges w @ [(request_for hs u, session_get e (exchanges w) (request_for hs u))]"
    using attempt_step_exchanges [of e hs u a w] st by simp
  show ?case
  proof (cases s)
    case (Next u')
    from Cons.IH [of u' w'] obtain tr where "exchanges (snd (fetch_loop e hs u' as w')) = exchanges w' @ tr" by blast
    then show ?thesis using st Next ex by simp
  qed (use st ex in simp_all)
qed

lemma loop_attempts_Nil [simp]: "loop_attempts e hs u [] w = []"
  by (simp add: loop_attempts_def)

lemma loop_attempts_Cons:
  "loop_attempts e hs u (a # as) w =
     (request_for hs u, session_get e (exchanges w) (request_for hs u)) #
     (case attempt_step e hs u a w of
        (Next u', w') \<Rightarrow> loop_attempts e hs u' as w'
      | _ \<Rightarrow> [])"
proof -
  obtain s w' where st: "attempt_step e hs u a w = (s, w')" by (cases "attempt_step e hs u a w")
  have ex: "exchanges w' = exchanges w @ [(request_for hs u, session_get e (exchanges w) (request_for hs u))]"
    using attempt_step_exchanges [of e hs u a w] st by simp
  show ?thesis
  proof (cases s)
    case (Next u')
    from fetch_loop_exchanges [of e hs u' as w'] obtain tr
      where tr: "exchanges (snd (fetch_loop e hs u' as w')) = exchanges w' @ tr" by blast
    show ?thesis using st Next ex tr by (simp add: loop_attempts_def)
  qed (use st ex in \<open>simp_all add: loop_attempts_def\<close>)
qed

text \<open>One iteration, seen from the loop: the three ways it can end.\<close>

lemma loop_step_cases:
  obtains (Return) body w' where "attempt_step e hs u a w = (Return body, w')"
      "next_of u (session_get e (exchanges w) (request_for hs u)) = Return body"
      "fetch_loop e hs u (a # as) w = (Some body, w')"
      "loop_attempts e hs u (a # as) w = [(request_for hs u, session_get e (exchanges w) (request_for hs u))]"
  | (Break) w' where "attempt_step e hs u a w = (Break, w')"
      "next_of u (session_get e (exchanges w) (request_for hs u)) = Break"
      "fetch_loop e hs u (a # as) w = (None, w')"
      "loop_attempts e hs u (a # as) w = [(request_for hs u, session_get e (exchanges w) (request_for hs u))]"
  | (Next) u' w' where "attempt_step e hs u a w = (Next u', w')"
      "next_of u (session_get e (exchanges w) (request_for hs u)) = Next u'"
      "fetch_loop e hs u (a # as) w = fetch_loop e hs u' as w'"
      "loop_attempts e hs u (a # as) w =
         (request_for hs u, session_get e (exchanges w) (request_for hs u)) # loop_attempts e hs u' as w'"
proof -
  obtain s w' where st: "attempt_step e hs u a w = (s, w')" by (cases "attempt_step e hs u a w")
  have nx: "next_of u (session_get e (exchanges w) (request_for hs u)) = s"
    using attempt_step_fst [of e hs u a w] st by simp
  show ?thesis
  proof (cases s)
    case (Return b)
    show ?thesis by (rule that(1) [of b w']) (use st nx Return in \<open>simp_all add: loop_attempts_Cons\<close>)
  next
    case Break
    show ?thesis by (rule that(2) [of w']) (use st nx Break in \<open>simp_all add: loop_attempts_Cons\<close>)
  next
    case (Next u')
    show ?thesis by (rule that(3) [of u' w']) (use st nx Next in \<open>simp_all add: loop_attempts_Cons\<close>)
  qed
qed


lemma goes_on_next: "goes_on out \<Longrightarrow> \<exists>u'. next_of u out = Next u'"
  by (cases out) (auto simp: goes_on_def split: sum.splits if_splits)

lemma loop_all_go_on:
  "\<forall>x \<in> set (loop_attempts e hs u as w). goes_on (snd x) \<Longrightarrow>
     fst (fetch_loop e hs u as w) = None \<and> length (loop_attempts e hs u as w) = length as"
proof (induction as arbitrary: u w)
  case Nil
  then show ?case by simp
next
  case (Cons a as)
  show ?case
  proof (cases rule: loop_step_cases [of e hs u a w as])
    case (Return body w')
    with Cons.prems goes_on_next [of "session_get e (exchanges w) (request_for hs u)" u]
    show ?thesis by simp
  next
    case (Break w')
    with Cons.prems goes_on_next [of "session_get e (exchanges w) (request_for hs u)" u]
    show ?thesis by simp
  next
    case (Next u' w')
    with Cons.prems Cons.IH [of u' w'] show ?thesis by simp
  qed
qed

lemma loop_drop:
  "k < length (loop_attempts e hs u as w) \<Longrightarrow>
     \<exists>uk wk. drop k (loop_attempts e hs u as w) = loop_attempts e hs uk (drop k as) wk
       \<and> fetch_loop e hs u as w = fetch_loop e hs uk (drop k as) wk"
proof (induction k arbitrary: u as w)
  case 0
  then show ?case by auto
next
  case (Suc k)
  then obtain a as' where as: "as = a # as'" by (cases as) auto
  show ?case
  proof (cases rule: loop_step_cases [of e hs u a w as'])
    case (Return body w')
    with Suc.prems as show ?thesis by simp
  next
    case (Break w')
    with Suc.prems as show ?thesis by simp
  next
    case (Next u' w')
    with Suc.prems as have "k < length (loop_attempts e hs u' as' w')" by simp
    from Suc.IH [OF this] Next as show ?thesis by simp
  qed
qed

subsection \<open>From the loop to fetch\<close>

lemma rng_pos_logging [simp]: "rng_pos (logging l m w) = rng_pos w"
  by (simp add: logging_def)
lemma rng_pos_emit [simp]: "rng_pos (emit ev w) = rng_pos w"
  by (simp add: emit_def)

lemma build_headers_exchanges [simp]: "exchanges (snd (build_headers e r w)) = exchanges w"
  by (simp add: build_headers_def random_choice_def Let_def)

lemma build_headers_emit [simp]: "fst (build_headers e r (emit ev w)) = fst (build_headers e r w)"
  by (simp add: build_headers_def random_choice_def Let_def)

lemma length_py_range [simp]: "length (py_range n) = nat n"
  by (simp add: py_range_def)

lemma fetch_loop_form:
  "fetch e u n r w =
     fetch_loop e (fst (build_headers e r w)) (Some u) (py_range n)
       (snd (build_headers e r (emit (FetchInvoked u) w)))"
  by (simp add: fetch_def split: prod.split) (metis build_headers_emit fst_conv)

lemma attempts_loop_form:
  "attempts e u n r w =
     loop_attempts e (fst (build_headers e r w)) (Some u) (py_range n)
       (snd (build_headers e r (emit (FetchInvoked u) w)))"
  by (simp add: attempts_def loop_attempts_def fetch_loop_form)

subsection \<open>Retries on network errors\<close>

text \<open>
  C1. For every retries value \<open>n \<ge> 1\<close>: when every attempt of an invocation of fetch raises
  a network-class error (one of the classes of the first handler, from the request or from
  reading the body), the invocation makes exactly \<open>n\<close> attempts and returns \<^verbatim>\<open>None\<close>.
\<close>

theorem fetch_network_errors_exhaust_retries:
  assumes "1 \<le> n"
    and "\<forall>x \<in> set (attempts e u n resume w).
           \<exists>err. raised (snd x) = Some err \<and> is_network_error err"
  shows "fst (fetch e u n resume w) = None \<and> length (attempts e u n resume w) = nat n"
proof -
  have "goes_on out" if "raised out = Some err" for out err
    using that by (cases out) (auto simp: goes_on_def split: if_splits sum.splits)
  with assms(2) have "\<forall>x \<in> set (attempts e u n resume w). goes_on (snd x)" by blast
  then show ?thesis
    unfolding attempts_loop_form fetch_loop_form using loop_all_go_on by fastforce
qed

text \<open>Three attempts on an unreachable host.\<close>

lemma demo_down_outcomes:
  "map snd (attempts demo_env ''http://down.test/f'' 3 False world0) =
     [Raise ClientConnectorError, Raise ClientConnectorError, Raise ClientConnectorError]"
  by code_simp

theorem fetch_network_errors_exhaust_retries_witness:
  "(1::int) \<le> 3 \<and>
   map snd (attempts demo_env ''http://down.test/f'' 3 False world0) =
     [Raise ClientConnectorError, Raise ClientConnectorError, Raise ClientConnectorError] \<and>
   raised (Raise ClientConnectorError) = Some ClientConnectorError \<and>
   is_network_error ClientConnectorError \<and>
   fst (fetch demo_env ''http://down.test/f'' 3 False world0) = None \<and>
   length (attempts demo_env ''http://down.test/f'' 3 False world0) = 3"
proof -
  have "\<forall>out \<in> set (map snd (attempts demo_env ''http://down.test/f'' 3 False world0)).
          \<exists>err. raised out = Some err \<and> is_network_error err"
    unfolding demo_down_outcomes by simp
  then have h: "\<forall>x \<in> set (attempts demo_env ''http://down.test/f'' 3 False world0).
      \<exists>err. raised (snd x) = Some err \<and> is_network_error err"
    by simp
  have n: "(1::int) \<le> 3" by simp
  from fetch_network_errors_exhaust_retries [OF n h] demo_down_outcomes show ?thesis by simp
qed

subsection \<open>Redirects share the budget of attempts\<close>

lemma fetch_exchanges:
  "exchanges (snd (fetch e u n r w)) = exchanges w @ attempts e u n r w"
proof -
  from fetch_loop_exchanges [of e "fst (build_headers e r w)" "Some u" "py_range n"
      "snd (build_headers e r (emit (FetchInvoked u) w))"]
  obtain tr where "exchanges (snd (fetch e u n r w)) = exchanges w @ tr"
    by (auto simp: fetch_loop_form)
  then show ?thesis by (simp add: attempts_def)
qed

text \<open>
  C2. A redirect with a Location uses up one attempt, as an error does. For every
  \<open>n \<ge> 1\<close>: when every attempt of an invocation gets a 301, 302 or 303 with a Location, the
  invocation returns \<^verbatim>\<open>None\<close> after exactly \<open>n\<close> requests, and the run has issued \<open>n\<close>
  requests more than before and no other.
\<close>

theorem fetch_redirect_chain_exhausts_retries:
  assumes "1 \<le> n"
    and "\<forall>x \<in> set (attempts e u n resume w).
           \<exists>r. snd x = Resp r \<and> is_redirect r \<and> truthy (location r)"
  shows "fst (fetch e u n resume w) = None \<and> length (attempts e u n resume w) = nat n \<and>
         length (exchanges (snd (fetch e u n resume w))) = length (exchanges w) + nat n"
proof -
  have "goes_on out" if "out = Resp r" "is_redirect r" for out r
    using that by (auto simp: goes_on_def is_redirect_def)
  with assms(2) have "\<forall>x \<in> set (attempts e u n resume w). goes_on (snd x)" by blast
  then have "fst (fetch e u n resume w) = None \<and> length (attempts e u n resume w) = nat n"
    unfolding attempts_loop_form fetch_loop_form using loop_all_go_on by fastforce
  then show ?thesis by (simp add: fetch_exchanges)
qed

text \<open>A host that redirects to itself, with three attempts.\<close>

lemma demo_loop_outcomes:
  "map snd (attempts demo_env ''http://loop.test/f'' 3 False world0) =
     replicate 3 (Resp \<lparr>status = 302, reason = ''Found'', location = Some ''http://loop.test/f'',
                         content = Inr []\<rparr>)"
  by code_simp

theorem fetch_redirect_chain_exhausts_retries_witness:
  "(1::int) \<le> 3 \<and>
   map snd (attempts demo_env ''http://loop.test/f'' 3 False world0) =
     replicate 3 (Resp \<lparr>status = 302, reason = ''Found'', location = Some ''http://loop.test/f'',
                         content = Inr []\<rparr>) \<and>
   is_redirect \<lparr>status = 302, reason = ''Found'', location = Some ''http://loop.test/f'',
                 content = Inr []\<rparr> \<and>
   fst (fetch demo_env ''http://loop.test/f'' 3 False world0) = None \<and>
   length (attempts demo_env ''http://loop.test/f'' 3 False world0) = 3 \<and>
   length (exchanges (snd (fetch demo_env ''http://loop.test/f'' 3 False world0))) = 3"
proof -
  have "\<forall>out \<in> set (map snd (attempts demo_env ''http://loop.test/f'' 3 False world0)).
          \<exists>r. out = Resp r \<and> is_redirect r \<and> truthy (location r)"
    unfolding demo_loop_outcomes by (simp add: is_redirect_def)
  then have h: "\<forall>x \<in> set (attempts demo_env ''http://loop.test/f'' 3 False world0).
      \<exists>r. snd x = Resp r \<and> is_redirect r \<and> truthy (location r)"
    by simp
  have n: "(1::int) \<le> 3" by simp
  from fetch_redirect_chain_exhausts_retries [OF n h] demo_loop_outcomes show ?thesis
    by (simp add: world0_def is_redirect_def)
qed

subsection \<open>A fatal status ends the loop\<close>

text \<open>
  C4. For every \<open>n \<ge> 1\<close>: when the first attempt gets a response whose status is neither
  200 nor one of 301, 302, 303 (so, in particular, any status outside 2xx and 3xx, such as
  404), the invocation returns \<^verbatim>\<open>None\<close> and has made exactly one attempt.
\<close>

theorem fetch_fatal_status_one_attempt:
  assumes "1 \<le> n"
    and "snd (hd (attempts e u n resume w)) = Resp r"
    and "status r \<noteq> 200" and "\<not> is_redirect r"
  shows "fst (fetch e u n resume w) = None \<and> length (attempts e u n resume w) = 1"
proof -
  let ?hs = "fst (build_headers e resume w)"
  let ?w1 = "snd (build_headers e resume (emit (FetchInvoked u) w))"
  from assms(1) obtain a as where ra: "py_range n = a # as"
    by (cases "py_range n") (auto simp: py_range_def upto.simps split: if_splits)
  show ?thesis
  proof (cases rule: loop_step_cases [of e ?hs "Some u" a ?w1 as])
    case (Return body w')
    with assms(2-4) ra show ?thesis by (simp add: attempts_loop_form)
  next
    case (Break w')
    with ra show ?thesis by (simp add: attempts_loop_form fetch_loop_form)
  next
    case (Next u' w')
    with assms(2-4) ra show ?thesis by (simp add: attempts_loop_form)
  qed
qed

text \<open>A 404 on the first of three attempts.\<close>

lemma demo_missing_first:
  "snd (hd (attempts demo_env ''http://a.test/missing'' 3 False world0)) =
     Resp \<lparr>status = 404, reason = ''Not Found'', location = None, content = Inr []\<rparr>"
  by code_simp

theorem fetch_fatal_status_one_attempt_witness:
  "(1::int) \<le> 3 \<and>
   snd (hd (attempts demo_env ''http://a.test/missing'' 3 False world0)) =
     Resp \<lparr>status = 404, reason = ''Not Found'', location = None, content = Inr []\<rparr> \<and>
   fst (fetch demo_env ''http://a.test/missing'' 3 False world0) = None \<and>
   length (attempts demo_env ''http://a.test/missing'' 3 False world0) = 1"
proof -
  have n: "(1::int) \<le> 3" by simp
  from fetch_fatal_status_one_attempt [OF n demo_missing_first] demo_missing_first show ?thesis
    by (simp add: is_redirect_def)
qed

subsection \<open>A redirect without a Location\<close>

lemma loop_without_url:
  assumes "\<forall>h hs. \<exists>err. session_get e h (request_for hs None) = Raise err"
  shows "fst (fetch_loop e hs None as w) = None \<and>
         length (loop_attempts e hs None as w) = length as \<and>
         (\<forall>x \<in> set (loop_attempts e hs None as w). url (fst x) = None \<and> (\<exists>err. snd x = Raise err))"
proof (induction as arbitrary: w)
  case Nil
  then show ?case by simp
next
  case (Cons a as)
  from assms obtain err where err: "session_get e (exchanges w) (request_for hs None) = Raise err"
    by blast
  show ?case
  proof (cases rule: loop_step_cases [of e hs None a w as])
    case (Return body w')
    with err show ?thesis by simp
  next
    case (Break w')
    with err show ?thesis by simp
  next
    case (Next u' w')
    with err have "u' = None" by simp
    with Next err Cons.IH [of w'] show ?thesis by (simp add: request_for_def)
  qed
qed

lemma loop_redirect_without_location:
  assumes lib: "\<forall>h hs. \<exists>err. session_get e h (request_for hs None) = Raise err"
    and k: "k < length (loop_attempts e hs u as w)"
    and out: "snd (loop_attempts e hs u as w ! k) = Resp r"
    and red: "is_redirect r" and loc: "location r = None"
  shows "fst (fetch_loop e hs u as w) = None \<and>
         length (loop_attempts e hs u as w) = length as \<and>
         (\<forall>j. k < j \<and> j < length as \<longrightarrow>
            url (fst (loop_attempts e hs u as w ! j)) = None \<and>
            (\<exists>err. snd (loop_attempts e hs u as w ! j) = Raise err))"
proof -
  let ?tr = "loop_attempts e hs u as w"
  from loop_drop [OF k] obtain uk wk where
    dr: "drop k ?tr = loop_attempts e hs uk (drop k as) wk" and
    fl: "fetch_loop e hs u as w = fetch_loop e hs uk (drop k as) wk" by blast
  from k dr have "drop k as \<noteq> []" by (cases "drop k as") auto
  then obtain a as' where das: "drop k as = a # as'" by (cases "drop k as") auto
  then have klen: "k < length as" and las: "length as = Suc k + length as'"
    by (auto dest: arg_cong [where f = length])
  have hdk: "?tr ! k = hd (drop k ?tr)" using k by (simp add: hd_drop_conv_nth)
  show ?thesis
  proof (cases rule: loop_step_cases [of e hs uk a wk as'])
    case (Return body w')
    with out red loc hdk dr das show ?thesis by (auto simp: is_redirect_def)
  next
    case (Break w')
    with out red loc hdk dr das show ?thesis by (auto simp: is_redirect_def)
  next
    case (Next u' w')
    with out red loc hdk dr das have u': "u' = None" by (auto simp: is_redirect_def split: if_splits)
    note tail = loop_without_url [OF lib, of hs as' w']
    have dsk: "drop (Suc k) ?tr = loop_attempts e hs None as' w'"
      using dr das Next u' by (metis drop_Suc list.sel(3) tl_drop)
    have len: "length ?tr = length as"
    proof -
      have "length (drop (Suc k) ?tr) = length as'" using dsk tail by simp
      with k las show ?thesis by simp
    qed
    have nth: "?tr ! j = loop_attempts e hs None as' w' ! (j - Suc k)" if "k < j" "j < length as" for j
    proof -
      have "drop (Suc k) ?tr ! (j - Suc k) = ?tr ! j" using that len by simp
      with dsk show ?thesis by simp
    qed
    have "url (fst (?tr ! j)) = None \<and> (\<exists>err. snd (?tr ! j) = Raise err)" if "k < j" "j < length as" for j
    proof -
      have "j - Suc k < length (loop_attempts e hs None as' w')" using that las tail by simp
      then have "loop_attempts e hs None as' w' ! (j - Suc k) \<in> set (loop_attempts e hs None as' w')"
        by simp
      with tail nth [OF that] show ?thesis by simp
    qed
    moreover have "fst (fetch_loop e hs u as w) = None"
      using fl das Next u' tail by simp
    ultimately show ?thesis using len by blast
  qed
qed

lemma loop_redirect_next:
  assumes k: "k < length (loop_attempts e hs u as w)"
    and out: "snd (loop_attempts e hs u as w ! k) = Resp r"
    and red: "is_redirect r"
    and more: "Suc k < length as"
  shows "Suc k < length (loop_attempts e hs u as w) \<and>
         url (fst (loop_attempts e hs u as w ! Suc k)) = location r"
proof -
  let ?tr = "loop_attempts e hs u as w"
  from loop_drop [OF k] obtain uk wk where
    dr: "drop k ?tr = loop_attempts e hs uk (drop k as) wk" by blast
  from more obtain a a2 as2 where das: "drop k as = a # a2 # as2"
    by (metis Cons_nth_drop_Suc Suc_lessD)
  have "?tr ! k = hd (drop k ?tr)" using k by (simp add: hd_drop_conv_nth)
  with dr das have "snd (?tr ! k) = session_get e (exchanges wk) (request_for hs uk)"
    by (simp add: loop_attempts_Cons)
  with out red have nx: "next_of uk (session_get e (exchanges wk) (request_for hs uk)) = Next (location r)"
    by (auto simp: is_redirect_def)
  show ?thesis
  proof (cases rule: loop_step_cases [of e hs uk a wk "a2 # as2"])
    case (Next u' w')
    with nx have u': "u' = location r" by simp
    from dr das Next u' obtain rest where
      d2: "drop k ?tr = (request_for hs uk, session_get e (exchanges wk) (request_for hs uk)) #
             (request_for hs (location r), session_get e (exchanges w') (request_for hs (location r))) # rest"
      by (simp add: loop_attempts_Cons)
    have "length (drop k ?tr) = Suc (Suc (length rest))" by (simp add: d2)
    then have len: "Suc k < length ?tr" by simp
    have "?tr ! Suc k = drop k ?tr ! 1" using len by simp
    with d2 len show ?thesis by (simp add: request_for_def)
  qed (use nx in simp_all)
qed

text \<open>
  C10. When attempt \<open>k\<close> of an invocation gets a 301, 302 or 303 without a Location, the
  loop neither breaks nor returns at once: if an attempt is left, it is made, on the absent
  URL. And with an HTTP client that raises when it is given no URL, every later attempt is
  made and raises, so that the invocation returns \<^verbatim>\<open>None\<close> only after all \<open>n\<close> attempts.
\<close>

theorem fetch_redirect_without_location_continues:
  assumes "k < length (attempts e u n resume w)"
    and "snd (attempts e u n resume w ! k) = Resp r"
    and "is_redirect r" and "location r = None"
  shows "(Suc k < nat n \<longrightarrow>
            Suc k < length (attempts e u n resume w) \<and>
            url (fst (attempts e u n resume w ! Suc k)) = None) \<and>
         ((\<forall>h hs. \<exists>err. session_get e h (request_for hs None) = Raise err) \<longrightarrow>
            fst (fetch e u n resume w) = None \<and>
            length (attempts e u n resume w) = nat n \<and>
            (\<forall>j. k < j \<and> j < nat n \<longrightarrow>
               url (fst (attempts e u n resume w ! j)) = None \<and>
               (\<exists>err. snd (attempts e u n resume w ! j) = Raise err)))"
proof -
  let ?hs = "fst (build_headers e resume w)"
  let ?w1 = "snd (build_headers e resume (emit (FetchInvoked u) w))"
  have a: "Suc k < length (attempts e u n resume w) \<and>
           url (fst (attempts e u n resume w ! Suc k)) = None" if "Suc k < nat n"
    using loop_redirect_next [of k e ?hs "Some u" "py_range n" ?w1 r] assms that
    by (simp add: attempts_loop_form)
  have b: "fst (fetch e u n resume w) = None \<and>
           length (attempts e u n resume w) = nat n \<and>
           (\<forall>j. k < j \<and> j < nat n \<longrightarrow>
              url (fst (attempts e u n resume w ! j)) = None \<and>
              (\<exists>err. snd (attempts e u n resume w ! j) = Raise err))"
    if lib: "\<forall>h hs. \<exists>err. session_get e h (request_for hs None) = Raise err"
    using loop_redirect_without_location [OF lib, of k ?hs "Some u" "py_range n" ?w1 r] assms
    by (simp add: attempts_loop_form fetch_loop_form)
  from a b show ?thesis by blast
qed

text \<open>A redirect without a Location on the first of three attempts.\<close>

lemma demo_without_url:
  "\<forall>h hs. \<exists>err. session_get demo_env h (request_for hs None) = Raise err"
  by (simp add: demo_env_def demo_get_def request_for_def)

lemma demo_noloc_first:
  "0 < length (attempts demo_env ''http://noloc.test/f'' 3 False world0) \<and>
   snd (attempts demo_env ''http://noloc.test/f'' 3 False world0 ! 0) =
     Resp \<lparr>status = 302, reason = ''Found'', location = None, content = Inr []\<rparr>"
  by code_simp

theorem fetch_redirect_without_location_continues_witness:
  "(\<forall>h hs. \<exists>err. session_get demo_env h (request_for hs None) = Raise err) \<and>
   0 < length (attempts demo_env ''http://noloc.test/f'' 3 False world0) \<and>
   snd (attempts demo_env ''http://noloc.test/f'' 3 False world0 ! 0) =
     Resp \<lparr>status = 302, reason = ''Found'', location = None, content = Inr []\<rparr> \<and>
   Suc 0 < nat 3 \<and>
   Suc 0 < length (attempts demo_env ''http://noloc.test/f'' 3 False world0) \<and>
   fst (fetch demo_env ''http://noloc.test/f'' 3 False world0) = None \<and>
   length (attempts demo_env ''http://noloc.test/f'' 3 False world0) = 3 \<and>
   url (fst (attempts demo_env ''http://noloc.test/f'' 3 False world0 ! 1)) = None \<and>
   url (fst (attempts demo_env ''http://noloc.test/f'' 3 False world0 ! 2)) = None"
proof -
  note first = demo_noloc_first
  have "is_redirect \<lparr>status = 302, reason = ''Found'', location = None, content = Inr []\<rparr>"
    by (simp add: is_redirect_def)
  from fetch_redirect_without_location_continues [OF conjunct1 [OF first] conjunct2 [OF first] this] demo_without_url first
  show ?thesis by simp
qed

subsection \<open>The User-Agent of an invocation\<close>

lemma loop_attempts_headers:
  "\<forall>x \<in> set (loop_attempts e hs u as w). headers (fst x) = hs"
proof (induction as arbitrary: u w)
  case Nil
  then show ?case by simp
next
  case (Cons a as)
  show ?case
  proof (cases rule: loop_step_cases [of e hs u a w as])
    case (Next u' w')
    with Cons.IH [of u' w'] show ?thesis by (simp add: request_for_def)
  qed (simp_all add: request_for_def)
qed

lemma rng_pos_handle_exception [simp]: "rng_pos (handle_exception u a x w) = rng_pos w"
  by (simp add: handle_exception_def)

lemma rng_pos_attempt_step: "rng_pos (snd (attempt_step e hs u a w)) = rng_pos w"
  by (simp add: attempt_step_def Let_def split: outcome.split sum.split)

lemma rng_pos_fetch_loop: "rng_pos (snd (fetch_loop e hs u as w)) = rng_pos w"
proof (induction as arbitrary: u w)
  case Nil
  then show ?case by simp
next
  case (Cons a as)
  obtain s w' where st: "attempt_step e hs u a w = (s, w')" by (cases "attempt_step e hs u a w")
  with rng_pos_attempt_step [of e hs u a w] have "rng_pos w' = rng_pos w" by simp
  with st Cons.IH show ?case by (cases s) simp_all
qed

lemma rng_pos_build_headers [simp]: "rng_pos (snd (build_headers e r w)) = Suc (rng_pos w)"
  by (simp add: build_headers_def random_choice_def Let_def)

lemma rng_pos_fetch: "rng_pos (snd (fetch e u n r w)) = Suc (rng_pos w)"
  by (simp add: fetch_loop_form rng_pos_fetch_loop)

lemma user_agent_build_headers:
  "map_of (fst (build_headers e r w)) ''User-Agent'' =
     Some (USER_AGENTS ! (draws e (rng_pos w) mod length USER_AGENTS))"
  by (simp add: build_headers_def random_choice_def Let_def)

text \<open>
  C7, as the code has it. The User-Agent is chosen at random from the pool once for each
  invocation of fetch, before the loop: every request of the invocation, after an error or
  after a redirect, carries the same headers, and the generator is consulted exactly once.
\<close>

theorem fetch_user_agent_chosen_once:
  "(\<forall>x \<in> set (attempts e u n resume w). headers (fst x) = fst (build_headers e resume w)) \<and>
   map_of (fst (build_headers e resume w)) ''User-Agent'' =
     Some (USER_AGENTS ! (draws e (rng_pos w) mod length USER_AGENTS)) \<and>
   rng_pos (snd (fetch e u n resume w)) = Suc (rng_pos w)"
  using loop_attempts_headers [of e "fst (build_headers e resume w)"]
  by (simp add: attempts_loop_form rng_pos_fetch user_agent_build_headers)

text \<open>Two attempts on an unreachable host, with a generator that counts 0, 1, 2, ...\<close>

theorem fetch_user_agent_chosen_once_witness:
  "list_all (\<lambda>x. headers (fst x) = [(''User-Agent'', USER_AGENTS ! 0)])
     (attempts demo_env ''http://down.test/f'' 2 False world0) \<and>
   rng_pos (snd (fetch demo_env ''http://down.test/f'' 2 False world0)) = 1"
proof -
  have "fst (build_headers demo_env False world0) = [(''User-Agent'', USER_AGENTS ! 0)]"
    by (simp add: build_headers_def random_choice_def demo_env_def world0_def USER_AGENTS_def)
  with fetch_user_agent_chosen_once [of demo_env "''http://down.test/f''" 2 False world0] show ?thesis
    by (simp add: world0_def list_all_iff)
qed

text \<open>
  The claim as the specification words it, a fresh choice for each attempt, fails there: the
  second attempt carries the value of the first draw, the next draw would have given
  another one, and the invocation has consumed one draw for its two attempts.
\<close>

theorem fetch_user_agent_per_attempt_counterexample:
  "headers (fst (attempts demo_env ''http://down.test/f'' 2 False world0 ! 1)) =
     [(''User-Agent'', USER_AGENTS ! (draws demo_env 0 mod length USER_AGENTS))] \<and>
   USER_AGENTS ! (draws demo_env 0 mod length USER_AGENTS) \<noteq>
     USER_AGENTS ! (draws demo_env 1 mod length USER_AGENTS) \<and>
   rng_pos (snd (fetch demo_env ''http://down.test/f'' 2 False world0)) = rng_pos world0 + 1"
  by code_simp

subsection \<open>Events, logs and results of the dispatcher\<close>

lemma in_flight_append: "in_flight (a @ b) = in_flight a + in_flight b"
  by (induction a rule: in_flight.induct) simp_all

lemma fetch_calls_append: "fetch_calls (a @ b) = fetch_calls a @ fetch_calls b"
  by (induction a rule: fetch_calls.induct) simp_all

lemma one_at_a_time_Nil: "one_at_a_time []"
  by (simp add: one_at_a_time_def)

lemma one_at_a_time_append:
  assumes "one_at_a_time a" and "one_at_a_time b"
  shows "one_at_a_time (a @ b)"
proof -
  have "0 \<le> in_flight (take k (a @ b)) \<and> in_flight (take k (a @ b)) \<le> 1" for k
  proof (cases "k \<le> length a")
    case True
    with assms(1) show ?thesis by (simp add: one_at_a_time_def)
  next
    case False
    then have "take k (a @ b) = a @ take (k - length a) b" by simp
    with assms show ?thesis by (simp add: one_at_a_time_def in_flight_append)
  qed
  with assms show ?thesis by (simp add: one_at_a_time_def in_flight_append)
qed

lemma one_at_a_time_request: "one_at_a_time [RequestBegin rq, RequestEnd]"
proof -
  have "0 \<le> in_flight (take k [RequestBegin rq, RequestEnd]) \<and>
        in_flight (take k [RequestBegin rq, RequestEnd]) \<le> 1" for k
  proof (cases k)
    case 0
    then show ?thesis by simp
  next
    case (Suc j)
    then show ?thesis by (cases j) simp_all
  qed
  then show ?thesis by (simp add: one_at_a_time_def)
qed

lemma one_at_a_time_invoked: "one_at_a_time evs \<Longrightarrow> one_at_a_time (FetchInvoked u # evs)"
proof -
  assume a: "one_at_a_time evs"
  have "one_at_a_time [FetchInvoked u]"
  proof -
    have "in_flight (take k [FetchInvoked u]) = 0" for k by (cases k) simp_all
    then show ?thesis by (simp add: one_at_a_time_def)
  qed
  from one_at_a_time_append [OF this a] show ?thesis by simp
qed

lemma events_logging [simp]: "events (logging l m w) = events w"
  by (simp add: logging_def)
lemma events_print [simp]: "events (print m w) = events w"
  by (simp add: print_def)
lemma events_emit [simp]: "events (emit ev w) = events w @ [ev]"
  by (simp add: emit_def)
lemma events_handle_exception [simp]: "events (handle_exception u a x w) = events w"
  by (simp add: handle_exception_def)

lemma events_attempt_step:
  "events (snd (attempt_step e hs u a w)) = events w @ [RequestBegin (request_for hs u), RequestEnd]"
  by (simp add: attempt_step_def request_for_def Let_def split: outcome.split sum.split)

lemma events_fetch_loop:
  "\<exists>evs. events (snd (fetch_loop e hs u as w)) = events w @ evs \<and> fetch_calls evs = [] \<and>
     one_at_a_time evs"
proof (induction as arbitrary: u w)
  case Nil
  then show ?case by (simp add: one_at_a_time_Nil)
next
  case (Cons a as)
  let ?rq = "[RequestBegin (request_for hs u), RequestEnd]"
  obtain s w' where st: "attempt_step e hs u a w = (s, w')" by (cases "attempt_step e hs u a w")
  with events_attempt_step [of e hs u a w] have ev: "events w' = events w @ ?rq" by simp
  have one: "fetch_calls ?rq = [] \<and> one_at_a_time ?rq" by (simp add: one_at_a_time_request)
  show ?case
  proof (cases s)
    case (Next u')
    from Cons.IH [of u' w'] obtain evs where
      evs: "events (snd (fetch_loop e hs u' as w')) = events w' @ evs" "fetch_calls evs = []"
        "one_at_a_time evs" by blast
    have "events (snd (fetch_loop e hs u (a # as) w)) = events w @ (?rq @ evs)"
      using st Next ev evs(1) by simp
    moreover have "fetch_calls (?rq @ evs) = []" using evs(2) by simp
    moreover have "one_at_a_time (?rq @ evs)"
      using one_at_a_time_append [OF _ evs(3)] one by blast
    ultimately show ?thesis by blast
  next
    case (Return b)
    with st ev one show ?thesis by auto
  next
    case Break
    with st ev one show ?thesis by auto
  qed
qed

lemma events_build_headers [simp]: "events (snd (build_headers e r w)) = events w"
  by (simp add: build_headers_def random_choice_def Let_def)

lemma events_fetch:
  "\<exists>evs. events (snd (fetch e u n r w)) = events w @ evs \<and> fetch_calls evs = [u] \<and>
     one_at_a_time evs"
proof -
  from events_fetch_loop [of e "fst (build_headers e r w)" "Some u" "py_range n"
      "snd (build_headers e r (emit (FetchInvoked u) w))"]
  obtain evs where evs: "events (snd (fetch e u n r w)) = events w @ FetchInvoked u # evs"
      "fetch_calls evs = []" "one_at_a_time evs"
    by (auto simp: fetch_loop_form)
  then have "fetch_calls (FetchInvoked u # evs) = [u]" "one_at_a_time (FetchInvoked u # evs)"
    by (simp_all add: one_at_a_time_invoked)
  with evs(1) show ?thesis by blast
qed

lemma zip_tasks: "zip us (map f us) = map (\<lambda>u. (u, f u)) us"
  by (induction us) simp_all

lemma events_await_tasks:
  "\<exists>evs. events (snd (await_tasks (map (\<lambda>u. (u, fetch e u n r)) us) acc w)) = events w @ evs \<and>
     fetch_calls evs = us \<and> one_at_a_time evs"
proof (induction us arbitrary: acc w)
  case Nil
  then show ?case by (simp add: one_at_a_time_Nil)
next
  case (Cons u us)
  obtain res w' where f: "fetch e u n r w = (res, w')" by (cases "fetch e u n r w")
  from events_fetch [of e u n r w] f obtain evs1 where
    e1: "events w' = events w @ evs1" "fetch_calls evs1 = [u]" "one_at_a_time evs1" by auto
  define w'' where "w'' = (case res of Some body \<Rightarrow> w'\<lparr>progress := progress w' + 1\<rparr>
     | None \<Rightarrow> print (PrintFailedFetch u) (logging ERROR (FailedFetchContent u) w'))"
  define acc' where "acc' = (case res of Some body \<Rightarrow> acc @ [(u, body)] | None \<Rightarrow> acc)"
  have step: "await_tasks (map (\<lambda>u. (u, fetch e u n r)) (u # us)) acc w =
      await_tasks (map (\<lambda>u. (u, fetch e u n r)) us) acc' w''"
    using f by (cases res) (simp_all add: w''_def acc'_def)
  have ev'': "events w'' = events w @ evs1" using e1(1) by (cases res) (simp_all add: w''_def)
  from Cons.IH [of acc' w''] obtain evs2 where
    e2: "events (snd (await_tasks (map (\<lambda>u. (u, fetch e u n r)) us) acc' w'')) = events w'' @ evs2"
      "fetch_calls evs2 = us" "one_at_a_time evs2" by blast
  have "events (snd (await_tasks (map (\<lambda>u. (u, fetch e u n r)) (u # us)) acc w)) =
      events w @ (evs1 @ evs2)" using step e2(1) ev'' by simp
  moreover have "fetch_calls (evs1 @ evs2) = u # us" using e1(2) e2(2) by (simp add: fetch_calls_append)
  moreover have "one_at_a_time (evs1 @ evs2)" using one_at_a_time_append [OF e1(3) e2(3)] .
  ultimately show ?case by blast
qed

lemma events_skip_invalid [simp]: "events (skip_invalid us w) = events w"
  by (induction us arbitrary: w) simp_all

lemma logs_logging [simp]: "logs (logging l m w) = logs w @ [(l, m)]"
  by (simp add: logging_def)
lemma logs_print [simp]: "logs (print m w) = logs w"
  by (simp add: print_def)

lemma logs_skip_invalid:
  "logs (skip_invalid us w) = logs w @ map (\<lambda>u. (WARNING, InvalidSkipped u)) us"
  by (induction us arbitrary: w) simp_all


lemma logs_emit [simp]: "logs (emit ev w) = logs w"
  by (simp add: emit_def)

lemma logs_attempt_step: "\<exists>l. logs (snd (attempt_step e hs u a w)) = logs w @ l"
  by (simp add: attempt_step_def handle_exception_def Let_def split: outcome.split sum.split)

lemma logs_fetch_loop: "\<exists>l. logs (snd (fetch_loop e hs u as w)) = logs w @ l"
proof (induction as arbitrary: u w)
  case Nil
  then show ?case by simp
next
  case (Cons a as)
  obtain s w' where st: "attempt_step e hs u a w = (s, w')" by (cases "attempt_step e hs u a w")
  with logs_attempt_step [of e hs u a w] obtain l where l: "logs w' = logs w @ l" by auto
  show ?case
  proof (cases s)
    case (Next u')
    from Cons.IH [of u' w'] obtain l' where "logs (snd (fetch_loop e hs u' as w')) = logs w' @ l'"
      by blast
    with st Next l show ?thesis by simp
  qed (use st l in simp_all)
qed

lemma logs_build_headers [simp]: "logs (snd (build_headers e r w)) = logs w"
  by (simp add: build_headers_def random_choice_def Let_def)

lemma logs_fetch: "\<exists>l. logs (snd (fetch e u n r w)) = logs w @ l"
  using logs_fetch_loop [of e "fst (build_headers e r w)" "Some u" "py_range n"
      "snd (build_headers e r (emit (FetchInvoked u) w))"]
  by (simp add: fetch_loop_form)

lemma logs_await_tasks:
  "\<exists>l. logs (snd (await_tasks (map (\<lambda>u. (u, fetch e u n r)) us) acc w)) = logs w @ l"
proof (induction us arbitrary: acc w)
  case Nil
  then show ?case by simp
next
  case (Cons u us)
  obtain res w' where f: "fetch e u n r w = (res, w')" by (cases "fetch e u n r w")
  with logs_fetch [of e u n r w] obtain l where l: "logs w' = logs w @ l" by auto
  show ?case
  proof (cases res)
    case None
    from Cons.IH [of acc "print (PrintFailedFetch u) (logging ERROR (FailedFetchContent u) w')"]
    obtain l' where "logs (snd (await_tasks (map (\<lambda>u. (u, fetch e u n r)) us) acc
        (print (PrintFailedFetch u) (logging ERROR (FailedFetchContent u) w')))) =
        logs (print (PrintFailedFetch u) (logging ERROR (FailedFetchContent u) w')) @ l'" by blast
    with f None l show ?thesis by simp
  next
    case (Some body)
    from Cons.IH [of "acc @ [(u, body)]" "w'\<lparr>progress := progress w' + 1\<rparr>"]
    obtain l' where "logs (snd (await_tasks (map (\<lambda>u. (u, fetch e u n r)) us) (acc @ [(u, body)])
        (w'\<lparr>progress := progress w' + 1\<rparr>))) = logs (w'\<lparr>progress := progress w' + 1\<rparr>) @ l'" by blast
    with f Some l show ?thesis by simp
  qed
qed

text \<open>The keys of the results are URLs that were given to the loop.\<close>

lemma keys_await_tasks:
  "fst ` set (fst (await_tasks ts acc w)) \<subseteq> fst ` set acc \<union> fst ` set ts"
proof (induction ts arbitrary: acc w)
  case Nil
  then show ?case by simp
next
  case (Cons t ts)
  obtain u f where t: "t = (u, f)" by (cases t)
  obtain res w' where r: "f w = (res, w')" by (cases "f w")
  show ?case
  proof (cases res)
    case None
    with t r Cons.IH [of acc "print (PrintFailedFetch u) (logging ERROR (FailedFetchContent u) w')"]
    show ?thesis by auto
  next
    case (Some body)
    with t r Cons.IH [of "acc @ [(u, body)]" "w'\<lparr>progress := progress w' + 1\<rparr>"]
    show ?thesis by auto
  qed
qed

lemma map_of_dict_fold:
  "map_of (fold (\<lambda>(k, v) d. AList.update k v d) rs d) = map_of d ++ map_of (rev rs)"
proof (induction rs arbitrary: d)
  case Nil
  then show ?case by simp
next
  case (Cons p rs)
  obtain k v where p: "p = (k, v)" by (cases p)
  show ?case
    unfolding p using Cons.IH [of "AList.update k v d"]
    by (simp add: update_conv' map_add_upd_left fun_eq_iff map_add_def split: option.splits)
qed

lemma map_of_dict: "map_of (dict rs) = map_of (rev rs)"
  by (simp add: dict_def map_of_dict_fold)

lemma keys_dict: "fst ` set (dict rs) = fst ` set rs"
proof -
  have "dom (map_of (dict rs)) = dom (map_of (rev rs))" by (simp add: map_of_dict)
  then show ?thesis by (simp add: dom_map_of_conv_image_fst)
qed

subsection \<open>Persistence\<close>

lemma valid_url_parses: "is_valid_url e u \<Longrightarrow> \<exists>filename. get_filename_from_url e u = Inr filename"
  by (auto simp: is_valid_url_def get_filename_from_url_def Let_def split: option.splits)

lemma save_items_all:
  assumes "\<forall>x \<in> set data. is_valid_url e (fst x)"
  shows "\<exists>w' ops l. save_items e data d w = Inr w' \<and> fs_ops w' = fs_ops w @ ops \<and>
           logs w' = logs w @ l \<and> events w' = events w \<and> exchanges w' = exchanges w \<and>
           write_attempts ops = map (\<lambda>(u, body). (file_path_for e d u, body)) data \<and>
           (\<forall>p body x. WriteFile p body (Some x) \<in> set ops \<longrightarrow>
              (ERROR, FailedSaveContent p x) \<in> set l)"
  using assms
proof (induction data arbitrary: w)
  case Nil
  then show ?case by simp
next
  case (Cons item data)
  obtain u body where item: "item = (u, body)" by (cases item)
  from Cons.prems item obtain filename where fn: "get_filename_from_url e u = Inr filename"
    using valid_url_parses [of e u] by auto
  let ?p = "path_join e d filename"
  let ?r = "write_file e (fs_ops w) ?p body"
  let ?w1 = "w\<lparr>fs_ops := fs_ops w @ [WriteFile ?p body ?r]\<rparr>"
  define w2 where "w2 = (case ?r of
      None \<Rightarrow> print (PrintSaved ?p) (logging INFO (SavedContent ?p) ?w1)
    | Some x \<Rightarrow> print (PrintFailedSave ?p) (logging ERROR (FailedSaveContent ?p x) ?w1))"
  define l1 where "l1 = (case ?r of None \<Rightarrow> [(INFO, SavedContent ?p)]
    | Some x \<Rightarrow> [(ERROR, FailedSaveContent ?p x)])"
  have step: "save_items e (item # data) d w = save_items e data d w2"
    by (cases ?r) (simp_all add: item fn w2_def Let_def)
  have w2: "fs_ops w2 = fs_ops w @ [WriteFile ?p body ?r]" "logs w2 = logs w @ l1"
      "events w2 = events w" "exchanges w2 = exchanges w"
    by (cases ?r; simp add: w2_def l1_def print_def logging_def)+
  have l1: "\<forall>x. ?r = Some x \<longrightarrow> (ERROR, FailedSaveContent ?p x) \<in> set l1"
    by (simp add: l1_def)
  from Cons.prems have "\<forall>x \<in> set data. is_valid_url e (fst x)" by simp
  from Cons.IH [OF this, of w2] obtain w' ops l where
    ih: "save_items e data d w2 = Inr w'" "fs_ops w' = fs_ops w2 @ ops" "logs w' = logs w2 @ l"
      "events w' = events w2" "exchanges w' = exchanges w2"
      "write_attempts ops = map (\<lambda>(u, body). (file_path_for e d u, body)) data"
      "\<forall>p body x. WriteFile p body (Some x) \<in> set ops \<longrightarrow> (ERROR, FailedSaveContent p x) \<in> set l"
    by blast
  have "save_items e (item # data) d w = Inr w'" using step ih(1) by simp
  moreover have "fs_ops w' = fs_ops w @ (WriteFile ?p body ?r # ops)" using ih(2) w2(1) by simp
  moreover have "logs w' = logs w @ (l1 @ l)" using ih(3) w2(2) by simp
  moreover have "events w' = events w" "exchanges w' = exchanges w" using ih(4,5) w2(3,4) by simp_all
  moreover have "write_attempts (WriteFile ?p body ?r # ops) =
      map (\<lambda>(u, body). (file_path_for e d u, body)) (item # data)"
    using ih(6) by (simp add: item file_path_for_def fn)
  moreover have "\<forall>p b x. WriteFile p b (Some x) \<in> set (WriteFile ?p body ?r # ops) \<longrightarrow>
      (ERROR, FailedSaveContent p x) \<in> set (l1 @ l)"
    using ih(7) l1 by auto
  ultimately show ?case by blast
qed

text \<open>
  C9. Take a result set, that is, entries whose keys are valid URLs. Saving it always
  returns. Every file operation that fails is logged as an error. When the directory is
  there or can be created, a write is tried for every entry, in order, whatever happened
  to the writes before it; when the directory cannot be created, that failure is logged,
  nothing is written, and the function returns all the same.
\<close>

theorem save_to_directory_isolates_failures:
  assumes "\<forall>x \<in> set data. is_valid_url e (fst x)"
  shows "\<exists>w' ops l. save_to_directory e data output_dir w = Inr w' \<and>
           fs_ops w' = fs_ops w @ ops \<and> logs w' = logs w @ l \<and>
           (\<forall>p body x. WriteFile p body (Some x) \<in> set ops \<longrightarrow>
              (ERROR, FailedSaveContent p x) \<in> set l) \<and>
           (path_exists e (fs_ops w) output_dir \<or> makedirs e (fs_ops w) output_dir = None \<longrightarrow>
              write_attempts ops = map (\<lambda>(u, body). (file_path_for e output_dir u, body)) data) \<and>
           (\<forall>x. \<not> path_exists e (fs_ops w) output_dir \<and>
                makedirs e (fs_ops w) output_dir = Some x \<longrightarrow>
              ops = [Makedirs output_dir (Some x)] \<and>
              (ERROR, FailedCreateDirectory output_dir x) \<in> set l)"
proof (cases "path_exists e (fs_ops w) output_dir")
  case True
  from save_items_all [OF assms, of output_dir w] obtain w' ops l where
    "save_items e data output_dir w = Inr w'" "fs_ops w' = fs_ops w @ ops" "logs w' = logs w @ l"
    "write_attempts ops = map (\<lambda>(u, body). (file_path_for e output_dir u, body)) data"
    "\<forall>p body x. WriteFile p body (Some x) \<in> set ops \<longrightarrow> (ERROR, FailedSaveContent p x) \<in> set l"
    by blast
  with True show ?thesis by (simp add: save_to_directory_def)
next
  case False
  show ?thesis
  proof (cases "makedirs e (fs_ops w) output_dir")
    case (Some x)
    with False show ?thesis
      by (simp add: save_to_directory_def Let_def print_def logging_def)
  next
    case None
    let ?w1 = "print (PrintCreatedDirectory output_dir)
       (logging INFO (CreatedDirectory output_dir)
          (w\<lparr>fs_ops := fs_ops w @ [Makedirs output_dir None]\<rparr>))"
    from save_items_all [OF assms, of output_dir ?w1] obtain w' ops l where
      r: "save_items e data output_dir ?w1 = Inr w'" "fs_ops w' = fs_ops ?w1 @ ops"
        "logs w' = logs ?w1 @ l"
        "write_attempts ops = map (\<lambda>(u, body). (file_path_for e output_dir u, body)) data"
        "\<forall>p body x. WriteFile p body (Some x) \<in> set ops \<longrightarrow> (ERROR, FailedSaveContent p x) \<in> set l"
      by blast
    have a: "save_to_directory e data output_dir w = Inr w'"
      using False None r(1) by (simp add: save_to_directory_def Let_def)
    have b: "fs_ops w' = fs_ops w @ (Makedirs output_dir None # ops)"
      using r(2) by (simp add: print_def logging_def)
    have c: "logs w' = logs w @ ((INFO, CreatedDirectory output_dir) # l)"
      using r(3) by (simp add: print_def logging_def)
    show ?thesis
      apply (rule exI [of _ w'])
      apply (rule exI [of _ "Makedirs output_dir None # ops"])
      apply (rule exI [of _ "(INFO, CreatedDirectory output_dir) # l"])
      using a b c r(4) r(5) None apply auto
      done
  qed
qed

text \<open>
  Two entries: into a directory where the first file cannot be written, and into a
  directory that cannot be created.
\<close>

lemma demo_data_valid:
  "\<forall>x \<in> set [(''http://a.test/x.bin'', [1, 2, 3]), (''http://a.test/y.bin'', [7 :: 8 word])].
     is_valid_url demo_env (fst x)"
  by code_simp

lemma demo_data_paths:
  "map (\<lambda>(u, body). (file_path_for demo_env ''out'' u, body))
     [(''http://a.test/x.bin'', [1, 2, 3]), (''http://a.test/y.bin'', [7 :: 8 word])] =
   [(''out/x.bin'', [1, 2, 3]), (''out/y.bin'', [7])]"
  by code_simp

lemma demo_directories:
  "path_exists demo_env (fs_ops world0) ''out'' \<and>
   \<not> path_exists demo_env (fs_ops world0) ''taken'' \<and>
   makedirs demo_env (fs_ops world0) ''taken'' = Some (OtherException ''FileExistsError'')"
  by code_simp

theorem save_to_directory_isolates_failures_witness:
  "is_valid_url demo_env ''http://a.test/x.bin'' \<and>
   is_valid_url demo_env ''http://a.test/y.bin'' \<and>
   path_exists demo_env (fs_ops world0) ''out'' \<and>
   (\<exists>w' ops l.
      save_to_directory demo_env
        [(''http://a.test/x.bin'', [1, 2, 3]), (''http://a.test/y.bin'', [7])] ''out'' world0 = Inr w' \<and>
      fs_ops w' = fs_ops world0 @ ops \<and> logs w' = logs world0 @ l \<and>
      write_attempts ops = [(''out/x.bin'', [1, 2, 3]), (''out/y.bin'', [7])]) \<and>
   \<not> path_exists demo_env (fs_ops world0) ''taken'' \<and>
   makedirs demo_env (fs_ops world0) ''taken'' = Some (OtherException ''FileExistsError'') \<and>
   (\<exists>w' ops l.
      save_to_directory demo_env
        [(''http://a.test/x.bin'', [1, 2, 3]), (''http://a.test/y.bin'', [7])] ''taken'' world0 = Inr w' \<and>
      fs_ops w' = fs_ops world0 @ ops \<and> logs w' = logs world0 @ l \<and>
      ops = [Makedirs ''taken'' (Some (OtherException ''FileExistsError''))] \<and>
      (ERROR, FailedCreateDirectory ''taken'' (OtherException ''FileExistsError'')) \<in> set l)"
proof -
  note d = demo_directories
  from save_to_directory_isolates_failures [OF demo_data_valid, of "''out''" world0] d
  have a: "\<exists>w' ops l.
      save_to_directory demo_env
        [(''http://a.test/x.bin'', [1, 2, 3]), (''http://a.test/y.bin'', [7])] ''out'' world0 = Inr w' \<and>
      fs_ops w' = fs_ops world0 @ ops \<and> logs w' = logs world0 @ l \<and>
      write_attempts ops = [(''out/x.bin'', [1, 2, 3]), (''out/y.bin'', [7])]"
    unfolding demo_data_paths by blast
  from save_to_directory_isolates_failures [OF demo_data_valid, of "''taken''" world0] d
  have b: "\<exists>w' ops l.
      save_to_directory demo_env
        [(''http://a.test/x.bin'', [1, 2, 3]), (''http://a.test/y.bin'', [7])] ''taken'' world0 = Inr w' \<and>
      fs_ops w' = fs_ops world0 @ ops \<and> logs w' = logs world0 @ l \<and>
      ops = [Makedirs ''taken'' (Some (OtherException ''FileExistsError''))] \<and>
      (ERROR, FailedCreateDirectory ''taken'' (OtherException ''FileExistsError'')) \<in> set l"
    by blast
  from demo_data_valid have "is_valid_url demo_env ''http://a.test/x.bin''"
    "is_valid_url demo_env ''http://a.test/y.bin''" by simp_all
  with a b d show ?thesis by blast
qed

subsection \<open>The run of the dispatcher\<close>

lemma download_results_facts:
  obtains results w2 evs l where
    "download_results e urls n r w = (results, w2)"
    "events w2 = events w @ evs"
    "fetch_calls evs = filter (is_valid_url e) urls"
    "one_at_a_time evs"
    "logs w2 = logs w @ map (\<lambda>u. (WARNING, InvalidSkipped u))
                           (filter (\<lambda>u. \<not> is_valid_url e u) urls) @ l"
    "\<forall>x \<in> set results. is_valid_url e (fst x)"
proof -
  let ?valid = "filter (is_valid_url e) urls"
  let ?w1 = "skip_invalid (filter (\<lambda>u. \<not> is_valid_url e u) urls) w"
  let ?ts = "map (\<lambda>u. (u, fetch e u n r)) ?valid"
  obtain rs w2 where aw: "await_tasks ?ts [] ?w1 = (rs, w2)" by (cases "await_tasks ?ts [] ?w1")
  have dr: "download_results e urls n r w = (dict rs, w2)"
    using aw by (simp add: download_results_def zip_tasks Let_def)
  from events_await_tasks [of e n r ?valid "[]" ?w1] aw obtain evs where
    evs: "events w2 = events w @ evs" "fetch_calls evs = ?valid" "one_at_a_time evs" by auto
  from logs_await_tasks [of e n r ?valid "[]" ?w1] aw obtain l where
    l: "logs w2 = logs ?w1 @ l" by auto
  have keys: "fst ` set (dict rs) \<subseteq> set ?valid"
    using keys_await_tasks [of ?ts "[]" ?w1] aw by (simp add: keys_dict image_image)
  then have "\<forall>x \<in> set (dict rs). is_valid_url e (fst x)" by auto
  with dr evs l show ?thesis by (intro that [of "dict rs" w2 evs l]) (simp_all add: logs_skip_invalid)
qed

lemma download_urls_facts:
  obtains w' evs l where
    "download_urls e urls output_dir n m r w = Inr w'"
    "events w' = events w @ evs"
    "fetch_calls evs = filter (is_valid_url e) urls"
    "one_at_a_time evs"
    "logs w' = logs w @ map (\<lambda>u. (WARNING, InvalidSkipped u))
                           (filter (\<lambda>u. \<not> is_valid_url e u) urls) @ l"
proof -
  obtain results w2 evs l where
    d: "download_results e urls n r w = (results, w2)"
      "events w2 = events w @ evs" "fetch_calls evs = filter (is_valid_url e) urls"
      "one_at_a_time evs"
      "logs w2 = logs w @ map (\<lambda>u. (WARNING, InvalidSkipped u))
                           (filter (\<lambda>u. \<not> is_valid_url e u) urls) @ l"
      "\<forall>x \<in> set results. is_valid_url e (fst x)"
    by (rule download_results_facts)
  have "\<exists>w' l'. save_to_directory e results output_dir w2 = Inr w' \<and> events w' = events w2 \<and>
      logs w' = logs w2 @ l'"
  proof (cases "path_exists e (fs_ops w2) output_dir")
    case True
    with save_items_all [OF d(6), of output_dir w2] show ?thesis
      by (auto simp: save_to_directory_def)
  next
    case False
    show ?thesis
    proof (cases "makedirs e (fs_ops w2) output_dir")
      case (Some x)
      with False show ?thesis
        by (simp add: save_to_directory_def Let_def)
    next
      case None
      let ?w3 = "print (PrintCreatedDirectory output_dir)
         (logging INFO (CreatedDirectory output_dir)
            (w2\<lparr>fs_ops := fs_ops w2 @ [Makedirs output_dir None]\<rparr>))"
      from save_items_all [OF d(6), of output_dir ?w3] obtain w' l' where
        "save_items e results output_dir ?w3 = Inr w'" "logs w' = logs ?w3 @ l'"
        "events w' = events ?w3" by blast
      with False None show ?thesis
        by (simp add: save_to_directory_def Let_def logging_def print_def)
    qed
  qed
  then obtain w' l' where s: "save_to_directory e results output_dir w2 = Inr w'"
      "events w' = events w2" "logs w' = logs w2 @ l'" by blast
  show ?thesis
    by (rule that [of w' evs "l @ l'"]) (use d s in \<open>simp_all add: download_urls_def\<close>)
qed

text \<open>
  C5. The dispatcher always returns, and the URLs on which it invokes fetch are the valid
  input URLs, in order. So for every input URL that the validity predicate rejects (no
  scheme, no network location, or a parse error), fetch is never invoked on it and a
  warning that it was skipped is logged.
\<close>

theorem download_urls_fetches_only_valid_urls:
  "\<exists>w'. download_urls e urls output_dir retries max_connections resume w = Inr w' \<and>
     fetch_calls (run_events (events w) (events w')) = filter (is_valid_url e) urls \<and>
     (\<forall>u \<in> set urls. \<not> is_valid_url e u \<longrightarrow>
        u \<notin> set (fetch_calls (run_events (events w) (events w'))) \<and>
        (WARNING, InvalidSkipped u) \<in> set (logs w'))"
proof -
  obtain w' evs l where
    d: "download_urls e urls output_dir retries max_connections resume w = Inr w'"
      "events w' = events w @ evs" "fetch_calls evs = filter (is_valid_url e) urls"
      "logs w' = logs w @ map (\<lambda>u. (WARNING, InvalidSkipped u))
                           (filter (\<lambda>u. \<not> is_valid_url e u) urls) @ l"
    by (rule download_urls_facts)
  have "run_events (events w) (events w') = evs" using d(2) by (simp add: run_events_def)
  with d show ?thesis by auto
qed

text \<open>A list with one entry that has neither scheme nor host.\<close>

lemma demo_valid_urls:
  "filter (is_valid_url demo_env)
     [''http://a.test/x.bin'', ''not a url'', ''http://flaky.test/y.bin''] =
   [''http://a.test/x.bin'', ''http://flaky.test/y.bin'']"
  by code_simp

theorem download_urls_fetches_only_valid_urls_witness:
  "\<not> is_valid_url demo_env ''not a url'' \<and>
   (\<exists>w'. download_urls demo_env
            [''http://a.test/x.bin'', ''not a url'', ''http://flaky.test/y.bin''] ''out'' 3 2 False
            world0 = Inr w' \<and>
      fetch_calls (run_events (events world0) (events w')) =
        [''http://a.test/x.bin'', ''http://flaky.test/y.bin''] \<and>
      ''not a url'' \<notin> set (fetch_calls (run_events (events world0) (events w'))) \<and>
      (WARNING, InvalidSkipped ''not a url'') \<in> set (logs w'))"
proof -
  have inv: "\<not> is_valid_url demo_env ''not a url''" by code_simp
  from download_urls_fetches_only_valid_urls [of demo_env "[''http://a.test/x.bin'', ''not a url'', ''http://flaky.test/y.bin'']"
      "''out''" 3 2 False world0]
  obtain w' where
    w': "download_urls demo_env
            [''http://a.test/x.bin'', ''not a url'', ''http://flaky.test/y.bin''] ''out'' 3 2 False
            world0 = Inr w'"
      "fetch_calls (run_events (events world0) (events w')) =
         filter (is_valid_url demo_env)
           [''http://a.test/x.bin'', ''not a url'', ''http://flaky.test/y.bin'']"
      "\<forall>u \<in> set [''http://a.test/x.bin'', ''not a url'', ''http://flaky.test/y.bin''].
         \<not> is_valid_url demo_env u \<longrightarrow>
           u \<notin> set (fetch_calls (run_events (events world0) (events w'))) \<and>
           (WARNING, InvalidSkipped u) \<in> set (logs w')"
    by blast
  from w'(3) inv have "''not a url'' \<notin> set (fetch_calls (run_events (events world0) (events w'))) \<and>
           (WARNING, InvalidSkipped ''not a url'') \<in> set (logs w')" by simp
  with inv w'(1) w'(2) show ?thesis unfolding demo_valid_urls by blast
qed

text \<open>
  C6. In a run with \<open>max_connections = m\<close>, \<open>m \<ge> 1\<close>, at no point are more than \<open>m\<close> requests
  open. The coroutines are awaited one after the other, so at most one request is open at
  any point of the run (\<open>one_at_a_time\<close>), whatever the size of the input.
\<close>

theorem download_urls_one_request_in_flight:
  assumes "1 \<le> max_connections"
  shows "\<exists>w'. download_urls e urls output_dir retries max_connections resume w = Inr w' \<and>
     (\<forall>k. in_flight (take k (run_events (events w) (events w'))) \<le> max_connections)"
proof -
  obtain w' evs l where
    d: "download_urls e urls output_dir retries max_connections resume w = Inr w'"
      "events w' = events w @ evs" "one_at_a_time evs"
    by (rule download_urls_facts)
  have "run_events (events w) (events w') = evs" using d(2) by (simp add: run_events_def)
  moreover have "in_flight (take k evs) \<le> max_connections" for k
  proof -
    from d(3) have "in_flight (take k evs) \<le> 1" by (simp add: one_at_a_time_def)
    with assms show ?thesis by simp
  qed
  ultimately show ?thesis using d(1) by simp
qed

text \<open>Three URLs with a bound of two.\<close>

theorem download_urls_one_request_in_flight_witness:
  "(1::int) \<le> 2 \<and>
   (\<exists>w'. download_urls demo_env
            [''http://a.test/x.bin'', ''http://down.test/f'', ''http://flaky.test/y.bin''] ''out'' 3 2
            False world0 = Inr w' \<and>
      (\<forall>k. in_flight (take k (run_events (events world0) (events w'))) \<le> 2))"
proof -
  have m: "(1::int) \<le> 2" by simp
  from download_urls_one_request_in_flight [OF m, of demo_env
      "[''http://a.test/x.bin'', ''http://down.test/f'', ''http://flaky.test/y.bin'']" "''out''" 3
      False world0] m
  show ?thesis by simp
qed

subsection \<open>A redirect followed by a success\<close>

lemma loop_success_at:
  assumes j: "j < length (loop_attempts e hs u as w)"
    and out: "snd (loop_attempts e hs u as w ! j) = Resp r'"
    and ok: "status r' = 200" "content r' = Inr body"
  shows "fst (fetch_loop e hs u as w) = Some body"
proof -
  let ?tr = "loop_attempts e hs u as w"
  from loop_drop [OF j] obtain uj wj where
    dr: "drop j ?tr = loop_attempts e hs uj (drop j as) wj" and
    fl: "fetch_loop e hs u as w = fetch_loop e hs uj (drop j as) wj" by blast
  from j dr obtain a as' where das: "drop j as = a # as'" by (cases "drop j as") auto
  have "?tr ! j = hd (drop j ?tr)" using j by (simp add: hd_drop_conv_nth)
  with dr das have "snd (?tr ! j) = session_get e (exchanges wj) (request_for hs uj)"
    by (simp add: loop_attempts_Cons)
  with out ok have nx: "next_of uj (session_get e (exchanges wj) (request_for hs uj)) = Return body"
    by simp
  show ?thesis
    by (cases rule: loop_step_cases [of e hs uj a wj as']) (use nx fl das in simp_all)
qed

lemma loop_redirect_target:
  assumes k: "Suc k < length (loop_attempts e hs u as w)"
    and out: "snd (loop_attempts e hs u as w ! k) = Resp r"
    and red: "is_redirect r"
  shows "url (fst (loop_attempts e hs u as w ! Suc k)) = location r"
proof -
  let ?tr = "loop_attempts e hs u as w"
  from k have k': "k < length ?tr" by simp
  from loop_drop [OF k'] obtain uk wk where
    dr: "drop k ?tr = loop_attempts e hs uk (drop k as) wk" by blast
  from k' dr obtain a as' where das: "drop k as = a # as'" by (cases "drop k as") auto
  have "?tr ! k = hd (drop k ?tr)" using k' by (simp add: hd_drop_conv_nth)
  with dr das have "snd (?tr ! k) = session_get e (exchanges wk) (request_for hs uk)"
    by (simp add: loop_attempts_Cons)
  with out red have nx: "next_of uk (session_get e (exchanges wk) (request_for hs uk)) = Next (location r)"
    by (auto simp: is_redirect_def)
  have sk: "?tr ! Suc k = drop k ?tr ! 1" using k by simp
  have len: "1 < length (drop k ?tr)" using k by simp
  show ?thesis
  proof (cases rule: loop_step_cases [of e hs uk a wk as'])
    case (Next u' w')
    with nx have u': "u' = location r" by simp
    from len dr das Next obtain a2 as2 where "as' = a2 # as2" by (cases as') auto
    with sk dr das Next u' show ?thesis by (simp add: loop_attempts_Cons request_for_def)
  qed (use nx in simp_all)
qed

text \<open>
  An invocation reads two things of the state it starts in: the exchanges so far and the
  position of the random generator.
\<close>

lemma fetch_loop_cong:
  assumes "exchanges w = exchanges v"
  shows "fst (fetch_loop e hs u as w) = fst (fetch_loop e hs u as v) \<and>
         loop_attempts e hs u as w = loop_attempts e hs u as v"
  using assms
proof (induction as arbitrary: u w v)
  case Nil
  then show ?case by simp
next
  case (Cons a as)
  obtain s w' where sw: "attempt_step e hs u a w = (s, w')" by (cases "attempt_step e hs u a w")
  obtain t v' where tv: "attempt_step e hs u a v = (t, v')" by (cases "attempt_step e hs u a v")
  have st: "s = t"
    using attempt_step_fst [of e hs u a w] attempt_step_fst [of e hs u a v] sw tv Cons.prems by simp
  have ex: "exchanges w' = exchanges v'"
    using attempt_step_exchanges [of e hs u a w] attempt_step_exchanges [of e hs u a v] sw tv
      Cons.prems by simp
  from tv st have sv: "attempt_step e hs u a v = (s, v')" by simp
  show ?case
  proof (cases s)
    case (Next u')
    with sw sv Cons.IH [OF ex, of u'] Cons.prems show ?thesis
      by (simp add: loop_attempts_Cons)
  qed (use sw sv Cons.prems in \<open>simp_all add: loop_attempts_Cons\<close>)
qed

lemma build_headers_cong:
  "rng_pos w = rng_pos v \<Longrightarrow> fst (build_headers e r w) = fst (build_headers e r v)"
  by (simp add: build_headers_def random_choice_def Let_def)

lemma fetch_cong:
  assumes "exchanges w = exchanges v" and "rng_pos w = rng_pos v"
  shows "fst (fetch e u n r w) = fst (fetch e u n r v)"
    and "attempts e u n r w = attempts e u n r v"
    and "exchanges (snd (fetch e u n r w)) = exchanges (snd (fetch e u n r v))"
    and "rng_pos (snd (fetch e u n r w)) = rng_pos (snd (fetch e u n r v))"
proof -
  have hs: "fst (build_headers e r w) = fst (build_headers e r v)"
    using assms(2) by (rule build_headers_cong)
  have "exchanges (snd (build_headers e r (emit (FetchInvoked u) w))) =
        exchanges (snd (build_headers e r (emit (FetchInvoked u) v)))" using assms(1) by simp
  from fetch_loop_cong [OF this, of e "fst (build_headers e r w)" "Some u" "py_range n"]
  show a: "fst (fetch e u n r w) = fst (fetch e u n r v)"
    and b: "attempts e u n r w = attempts e u n r v"
    by (simp_all add: fetch_loop_form attempts_loop_form hs)
  show "exchanges (snd (fetch e u n r w)) = exchanges (snd (fetch e u n r v))"
    using b assms(1) by (simp add: fetch_exchanges)
  show "rng_pos (snd (fetch e u n r w)) = rng_pos (snd (fetch e u n r v))"
    using assms(2) by (simp add: rng_pos_fetch)
qed


lemma exchanges_print [simp]: "exchanges (print m w) = exchanges w"
  by (simp add: print_def)
lemma rng_pos_print [simp]: "rng_pos (print m w) = rng_pos w"
  by (simp add: print_def)

lemma skip_invalid_io [simp]:
  "exchanges (skip_invalid us w) = exchanges w" "rng_pos (skip_invalid us w) = rng_pos w"
  by (induction us arbitrary: w) simp_all

text \<open>What the loop of the dispatcher does with one task, once its result is known.\<close>

lemma await_tasks_step:
  assumes "t w = (res, w')"
  shows "await_tasks ((u, t) # ts) acc w =
     await_tasks ts (case res of Some body \<Rightarrow> acc @ [(u, body)] | None \<Rightarrow> acc)
       (case res of Some body \<Rightarrow> w'\<lparr>progress := progress w' + 1\<rparr>
        | None \<Rightarrow> print (PrintFailedFetch u) (logging ERROR (FailedFetchContent u) w'))"
  using assms by (cases res) simp_all

lemma await_tasks_acc:
  "await_tasks ts acc w = (acc @ fst (await_tasks ts [] w), snd (await_tasks ts [] w))"
proof (induction ts arbitrary: acc w)
  case Nil
  then show ?case by simp
next
  case (Cons t ts)
  obtain u f where t: "t = (u, f)" by (cases t)
  obtain res w' where r: "f w = (res, w')" by (cases "f w")
  show ?case
  proof (cases res)
    case None
    with t r Cons.IH [of acc] show ?thesis by simp
  next
    case (Some body)
    with t r Cons.IH [of "acc @ [(u, body)]"] Cons.IH [of "[(u, body)]"] show ?thesis by simp
  qed
qed

lemma await_tasks_append:
  "await_tasks (ts @ ts') acc w =
     (case await_tasks ts acc w of (acc', w') \<Rightarrow> await_tasks ts' acc' w')"
proof (induction ts arbitrary: acc w)
  case Nil
  then show ?case by simp
next
  case (Cons t ts)
  obtain u f where t: "t = (u, f)" by (cases t)
  obtain res w' where r: "f w = (res, w')" by (cases "f w")
  show ?case using t r Cons.IH by (cases res) simp_all
qed

lemma await_tasks_cong:
  assumes "exchanges w = exchanges v" and "rng_pos w = rng_pos v"
  shows "fst (await_tasks (map (\<lambda>u. (u, fetch e u n r)) us) acc w) =
           fst (await_tasks (map (\<lambda>u. (u, fetch e u n r)) us) acc v) \<and>
         exchanges (snd (await_tasks (map (\<lambda>u. (u, fetch e u n r)) us) acc w)) =
           exchanges (snd (await_tasks (map (\<lambda>u. (u, fetch e u n r)) us) acc v)) \<and>
         rng_pos (snd (await_tasks (map (\<lambda>u. (u, fetch e u n r)) us) acc w)) =
           rng_pos (snd (await_tasks (map (\<lambda>u. (u, fetch e u n r)) us) acc v))"
  using assms
proof (induction us arbitrary: acc w v)
  case Nil
  then show ?case by simp
next
  case (Cons u us)
  obtain res w' where fw: "fetch e u n r w = (res, w')" by (cases "fetch e u n r w")
  obtain res' v' where fv: "fetch e u n r v = (res', v')" by (cases "fetch e u n r v")
  from fetch_cong [OF Cons.prems, of e u n r] fw fv
  have eq: "res = res'" "exchanges w' = exchanges v'" "rng_pos w' = rng_pos v'" by simp_all
  let ?acc = "case res of Some body \<Rightarrow> acc @ [(u, body)] | None \<Rightarrow> acc"
  let ?w = "case res of Some body \<Rightarrow> w'\<lparr>progress := progress w' + 1\<rparr>
        | None \<Rightarrow> print (PrintFailedFetch u) (logging ERROR (FailedFetchContent u) w')"
  let ?v = "case res of Some body \<Rightarrow> v'\<lparr>progress := progress v' + 1\<rparr>
        | None \<Rightarrow> print (PrintFailedFetch u) (logging ERROR (FailedFetchContent u) v')"
  have io: "exchanges ?w = exchanges ?v" "rng_pos ?w = rng_pos ?v"
    using eq(2,3) by (cases res; simp)+
  have "await_tasks (map (\<lambda>u. (u, fetch e u n r)) (u # us)) acc w =
        await_tasks (map (\<lambda>u. (u, fetch e u n r)) us) ?acc ?w"
    using await_tasks_step [of "fetch e u n r" w res w' u] fw by simp
  moreover have "await_tasks (map (\<lambda>u. (u, fetch e u n r)) (u # us)) acc v =
        await_tasks (map (\<lambda>u. (u, fetch e u n r)) us) ?acc ?v"
    using await_tasks_step [of "fetch e u n r" v res v' u] fv eq(1) by simp
  ultimately show ?case using Cons.IH [OF io, of ?acc] by simp
qed

text \<open>
  The results of a run on \<open>before @ u # after\<close>, when fetch on \<open>u\<close> succeeds in the state
  that the run on \<open>before\<close> leaves.
\<close>

lemma download_results_split:
  assumes valid: "is_valid_url e u"
    and ok: "fst (fetch e u n r (snd (download_results e before n r w))) = Some body"
  shows "\<exists>rs1 rs2. fst (download_results e (before @ u # after) n r w) = dict (rs1 @ (u, body) # rs2) \<and>
           fst ` set rs2 \<subseteq> set after \<and> fst ` set rs1 \<subseteq> set before"
proof -
  let ?task = "\<lambda>u. (u, fetch e u n r)"
  let ?inv = "\<lambda>us. filter (\<lambda>u. \<not> is_valid_url e u) us"
  let ?val = "\<lambda>us. filter (is_valid_url e) us"
  let ?wa = "skip_invalid (?inv (before @ u # after)) w"
  let ?wb = "skip_invalid (?inv before) w"
  obtain rs1 W where aw: "await_tasks (map ?task (?val before)) [] ?wa = (rs1, W)"
    by (cases "await_tasks (map ?task (?val before)) [] ?wa")
  have w1: "snd (download_results e before n r w) = snd (await_tasks (map ?task (?val before)) [] ?wb)"
    by (simp add: download_results_def zip_tasks Let_def split: prod.split)
  have io: "exchanges ?wa = exchanges ?wb" "rng_pos ?wa = rng_pos ?wb" by simp_all
  from await_tasks_cong [OF io, of e n r "?val before" "[]"] aw w1
  have W: "exchanges W = exchanges (snd (download_results e before n r w))"
      "rng_pos W = rng_pos (snd (download_results e before n r w))" by simp_all
  obtain res W' where fW: "fetch e u n r W = (res, W')" by (cases "fetch e u n r W")
  from fetch_cong(1) [OF W, of e u n r] ok fW have res: "res = Some body" by simp
  let ?W2 = "W'\<lparr>progress := progress W' + 1\<rparr>"
  obtain rs2 W3 where aw2: "await_tasks (map ?task (?val after)) [] ?W2 = (rs2, W3)"
    by (cases "await_tasks (map ?task (?val after)) [] ?W2")
  have "await_tasks (map ?task (?val (before @ u # after))) [] ?wa =
        await_tasks (map ?task (?val after)) (rs1 @ [(u, body)]) ?W2"
    using valid aw fW res by (simp add: await_tasks_append)
  also have "\<dots> = ((rs1 @ [(u, body)]) @ rs2, W3)"
    using await_tasks_acc [of "map ?task (?val after)" "rs1 @ [(u, body)]" ?W2] aw2 by simp
  finally have "fst (download_results e (before @ u # after) n r w) = dict (rs1 @ (u, body) # rs2)"
    by (simp add: download_results_def zip_tasks Let_def)
  moreover have "fst ` set rs2 \<subseteq> set after"
    using keys_await_tasks [of "map ?task (?val after)" "[]" ?W2] aw2 by (auto simp: image_image)
  moreover have "fst ` set rs1 \<subseteq> set before"
    using keys_await_tasks [of "map ?task (?val before)" "[]" ?wa] aw by (auto simp: image_image)
  ultimately show ?thesis by blast
qed

text \<open>
  C3. Let the dispatcher run on \<open>before @ u # after\<close> with \<open>u\<close> valid, and let \<open>w1\<close> be the
  state in which the dispatcher has handled \<open>before\<close>. For every \<open>n\<close> and \<open>k < n - 1\<close>: when
  attempt \<open>k\<close> of fetch on \<open>u\<close> gets a 301, 302 or 303 with a Location and attempt \<open>k + 1\<close>
  gets a 200 whose body reads as \<open>body\<close>, then attempt \<open>k + 1\<close> was sent to the Location,
  fetch returns \<open>body\<close>, and the dispatcher adds the pair of \<open>u\<close> and \<open>body\<close> to the results,
  between those of \<open>before\<close> and those of \<open>after\<close>. So the result set has \<open>body\<close> under \<open>u\<close>
  (unless \<open>u\<close> comes again later in the input, which replaces it) and nothing under the
  Location (unless it is an input URL itself).
\<close>

theorem dispatcher_stores_redirected_result_under_original_url:
  assumes "is_valid_url e u"
    and "w1 = snd (download_results e before n resume w)"
    and "int k < n - 1"
    and "Suc k < length (attempts e u n resume w1)"
    and "snd (attempts e u n resume w1 ! k) = Resp r"
    and "is_redirect r" and "location r = Some target"
    and "snd (attempts e u n resume w1 ! Suc k) = Resp r'"
    and "status r' = 200" and "content r' = Inr body"
  shows "fst (fetch e u n resume w1) = Some body \<and>
         url (fst (attempts e u n resume w1 ! Suc k)) = Some target \<and>
         (\<exists>rs1 rs2.
            fst (download_results e (before @ u # after) n resume w) =
              dict (rs1 @ (u, body) # rs2) \<and>
            fst ` set rs1 \<subseteq> set before \<and> fst ` set rs2 \<subseteq> set after) \<and>
         (u \<notin> set after \<longrightarrow>
            map_of (fst (download_results e (before @ u # after) n resume w)) u = Some body) \<and>
         (target \<notin> set (before @ u # after) \<longrightarrow>
            map_of (fst (download_results e (before @ u # after) n resume w)) target = None)"
proof -
  have ok: "fst (fetch e u n resume w1) = Some body"
    using loop_success_at [of "Suc k" e "fst (build_headers e resume w1)" "Some u" "py_range n"
        "snd (build_headers e resume (emit (FetchInvoked u) w1))" r' body] assms(4,8,9,10)
    by (simp add: attempts_loop_form fetch_loop_form)
  have tg: "url (fst (attempts e u n resume w1 ! Suc k)) = Some target"
    using loop_redirect_target [of k e "fst (build_headers e resume w1)" "Some u" "py_range n"
        "snd (build_headers e resume (emit (FetchInvoked u) w1))" r] assms(4,5,6,7)
    by (simp add: attempts_loop_form)
  from download_results_split [OF assms(1), of n resume before w body after] ok assms(2)
  obtain rs1 rs2 where
    d: "fst (download_results e (before @ u # after) n resume w) = dict (rs1 @ (u, body) # rs2)"
      "fst ` set rs2 \<subseteq> set after" "fst ` set rs1 \<subseteq> set before" by auto
  have a: "map_of (dict (rs1 @ (u, body) # rs2)) u = Some body" if "u \<notin> set after"
  proof -
    from that d(2) have "u \<notin> fst ` set (rev rs2)" by auto
    then have "map_of (rev rs2) u = None" by (simp add: map_of_eq_None_iff)
    then show ?thesis by (simp add: map_of_dict map_add_def)
  qed
  have b: "map_of (dict (rs1 @ (u, body) # rs2)) target = None"
    if "target \<notin> set (before @ u # after)"
  proof -
    from that d(2,3) have "target \<notin> fst ` set (dict (rs1 @ (u, body) # rs2))"
      unfolding keys_dict by auto
    then show ?thesis by (simp add: map_of_eq_None_iff)
  qed
  from d have "\<exists>rs1 rs2.
      fst (download_results e (before @ u # after) n resume w) = dict (rs1 @ (u, body) # rs2) \<and>
      fst ` set rs1 \<subseteq> set before \<and> fst ` set rs2 \<subseteq> set after" by blast
  with ok tg a b d(1) show ?thesis by simp
qed

text \<open>
  A list of three URLs whose second one has moved: the first attempt gets a 301, the
  second a 200.
\<close>

lemma demo_redirect_outcomes:
  "map snd (attempts demo_env ''http://a.test/x.bin'' 3 False
              (snd (download_results demo_env [''http://down.test/f''] 3 False world0))) =
     [Resp \<lparr>status = 301, reason = ''Moved Permanently'', location = Some ''http://b.test/x.bin'',
             content = Inr []\<rparr>,
      Resp \<lparr>status = 200, reason = ''OK'', location = None, content = Inr [1, 2, 3]\<rparr>]"
  by code_simp

lemma demo_redirect_valid: "is_valid_url demo_env ''http://a.test/x.bin''"
  by code_simp

theorem dispatcher_stores_redirected_result_under_original_url_witness:
  "is_valid_url demo_env ''http://a.test/x.bin'' \<and>
   map snd (attempts demo_env ''http://a.test/x.bin'' 3 False
              (snd (download_results demo_env [''http://down.test/f''] 3 False world0))) =
     [Resp \<lparr>status = 301, reason = ''Moved Permanently'', location = Some ''http://b.test/x.bin'',
             content = Inr []\<rparr>,
      Resp \<lparr>status = 200, reason = ''OK'', location = None, content = Inr [1, 2, 3]\<rparr>] \<and>
   fst (fetch demo_env ''http://a.test/x.bin'' 3 False
          (snd (download_results demo_env [''http://down.test/f''] 3 False world0))) =
     Some [1, 2, 3] \<and>
   map_of (fst (download_results demo_env
                  ([''http://down.test/f''] @ ''http://a.test/x.bin'' # [''http://flaky.test/y.bin''])
                  3 False world0)) ''http://a.test/x.bin'' = Some [1, 2, 3] \<and>
   map_of (fst (download_results demo_env
                  ([''http://down.test/f''] @ ''http://a.test/x.bin'' # [''http://flaky.test/y.bin''])
                  3 False world0)) ''http://b.test/x.bin'' = None"
proof -
  let ?w1 = "snd (download_results demo_env [''http://down.test/f''] 3 False world0)"
  let ?tr = "attempts demo_env ''http://a.test/x.bin'' 3 False ?w1"
  let ?r = "\<lparr>status = 301, reason = ''Moved Permanently'', location = Some ''http://b.test/x.bin'',
             content = Inr []\<rparr>"
  let ?r' = "\<lparr>status = 200, reason = ''OK'', location = None, content = Inr [1, 2, 3 :: 8 word]\<rparr>"
  note tr = demo_redirect_outcomes
  have len: "Suc 0 < length ?tr" using arg_cong [OF tr, of length] by simp
  have k: "int 0 < 3 - 1" by simp
  have o0: "snd (?tr ! 0) = Resp ?r"
  proof -
    have "snd (?tr ! 0) = map snd ?tr ! 0" using len by (intro nth_map [symmetric]) auto
    then show ?thesis by (simp add: tr)
  qed
  have o1: "snd (?tr ! Suc 0) = Resp ?r'"
  proof -
    have "snd (?tr ! Suc 0) = map snd ?tr ! Suc 0" using len by (intro nth_map [symmetric]) simp
    then show ?thesis by (simp add: tr)
  qed
  have red: "is_redirect ?r" by (simp add: is_redirect_def)
  have loc: "location ?r = Some ''http://b.test/x.bin''" by simp
  have st: "status ?r' = 200" by simp
  have ct: "content ?r' = Inr [1, 2, 3]" by simp
  from dispatcher_stores_redirected_result_under_original_url [OF demo_redirect_valid refl k len o0 red loc o1 st ct,
      where after = "[''http://flaky.test/y.bin'']"] demo_redirect_valid tr
  show ?thesis by simp
qed

subsection \<open>Configuration\<close>

text \<open>
  C8. When the retries value or the max_connections value is below 1, main leaves the
  process with exit code 1 at the validation of the arguments: no request has been sent,
  no fetch started and no file operation done.
\<close>

theorem main_rejects_invalid_configuration:
  assumes "arg_retries a < 1 \<or> arg_max_connections a < 1"
  shows "fst (main e a w) = Exits 1 \<and> exchanges (snd (main e a w)) = exchanges w \<and>
         events (snd (main e a w)) = events w \<and> fs_ops (snd (main e a w)) = fs_ops w"
  using assms by (auto simp: main_def parse_args_def validate_args_def logging_def)

text \<open>Zero retries, and zero connections.\<close>

theorem main_rejects_invalid_configuration_witness:
  "arg_retries \<lparr>arg_file = None, arg_dest = ''out'', arg_log = None, arg_retries = 0,
      arg_max_connections = 10, arg_config = None, arg_url = Some [''http://b.test/x.bin''],
      arg_resume = False\<rparr> < 1 \<and>
   fst (main demo_env \<lparr>arg_file = None, arg_dest = ''out'', arg_log = None, arg_retries = 0,
      arg_max_connections = 10, arg_config = None, arg_url = Some [''http://b.test/x.bin''],
      arg_resume = False\<rparr> world0) = Exits 1 \<and>
   exchanges (snd (main demo_env \<lparr>arg_file = None, arg_dest = ''out'', arg_log = None,
      arg_retries = 0, arg_max_connections = 10, arg_config = None,
      arg_url = Some [''http://b.test/x.bin''], arg_resume = False\<rparr> world0)) = [] \<and>
   arg_max_connections \<lparr>arg_file = None, arg_dest = ''out'', arg_log = None, arg_retries = 3,
      arg_max_connections = 0, arg_config = None, arg_url = Some [''http://b.test/x.bin''],
      arg_resume = False\<rparr> < 1 \<and>
   fst (main demo_env \<lparr>arg_file = None, arg_dest = ''out'', arg_log = None, arg_retries = 3,
      arg_max_connections = 0, arg_config = None, arg_url = Some [''http://b.test/x.bin''],
      arg_resume = False\<rparr> world0) = Exits 1 \<and>
   exchanges (snd (main demo_env \<lparr>arg_file = None, arg_dest = ''out'', arg_log = None,
      arg_retries = 3, arg_max_connections = 0, arg_config = None,
      arg_url = Some [''http://b.test/x.bin''], arg_resume = False\<rparr> world0)) = []"
  using main_rejects_invalid_configuration [of "\<lparr>arg_file = None, arg_dest = ''out'', arg_log = None, arg_retries = 0,
      arg_max_connections = 10, arg_config = None, arg_url = Some [''http://b.test/x.bin''],
      arg_resume = False\<rparr>" demo_env world0]
    main_rejects_invalid_configuration [of "\<lparr>arg_file = None, arg_dest = ''out'', arg_log = None, arg_retries = 3,
      arg_max_connections = 0, arg_config = None, arg_url = Some [''http://b.test/x.bin''],
      arg_resume = False\<rparr>" demo_env world0]
  by (simp add: world0_def)

text \<open>With three retries and ten connections the same command line downloads the file.\<close>

lemma demo_main_downloads:
  "fst (main demo_env \<lparr>arg_file = None, arg_dest = ''out'', arg_log = None, arg_retries = 3,
      arg_max_connections = 10, arg_config = None, arg_url = Some [''http://b.test/x.bin''],
      arg_resume = False\<rparr> world0) = Returns () \<and>
   length (exchanges (snd (main demo_env \<lparr>arg_file = None, arg_dest = ''out'', arg_log = None,
      arg_retries = 3, arg_max_connections = 10, arg_config = None,
      arg_url = Some [''http://b.test/x.bin''], arg_resume = False\<rparr> world0))) = 1"
  by code_simp

end
